theory Spec2Isabelle
  imports Main "HOL-Library.AList"
begin

section \<open>Python values, exceptions and the host\<close>

text \<open>
  The values that flow through \<^verbatim>\<open>markdown_settings.py\<close>: what the host editor's
  settings store and a parsed front-matter block hold. Dictionaries keep their insertion
  order, so they are association lists; their keys are strings. \<open>PObj m f\<close> is the object
  \<^verbatim>\<open>getattr(importlib.import_module(m), f)\<close>. Values are compared by content: two
  references to one dictionary object are two equal values.
\<close>

datatype pyval =
    PNone
  | PBool bool
  | PInt int
  | PStr string
  | PList "pyval list"
  | PDict "(string \<times> pyval) list"
  | PObj string string

type_synonym pydict = "(string \<times> pyval) list"

datatype pyerr = KeyError | TypeError | AttributeError | ImportError

text \<open>
  What the module takes from outside: \<^verbatim>\<open>sys.platform\<close>, the functions of
  \<^verbatim>\<open>os.path\<close> (which differ between platforms and read the file system), the import
  system, and \<^verbatim>\<open>repr\<close> of a value that is not a string.
\<close>

record host =
  platform :: string
  expanduser :: "string \<Rightarrow> string"
  path_exists :: "string \<Rightarrow> bool"
  isdir :: "string \<Rightarrow> bool"
  path_join :: "string \<Rightarrow> string \<Rightarrow> string"
  dirname :: "string \<Rightarrow> string"
  basename :: "string \<Rightarrow> string"
  normpath :: "string \<Rightarrow> string"
  import_attr :: "string \<Rightarrow> string \<Rightarrow> pyerr + pyval"
  py_repr :: "pyval \<Rightarrow> string"

definition py_str :: "host \<Rightarrow> pyval \<Rightarrow> string" where
  "py_str h v = (case v of PStr s \<Rightarrow> s | _ \<Rightarrow> py_repr h v)"

definition py_of_opt :: "string option \<Rightarrow> pyval" where
  "py_of_opt p = (case p of None \<Rightarrow> PNone | Some s \<Rightarrow> PStr s)"

definition startswith :: "string \<Rightarrow> string \<Rightarrow> bool" where
  "startswith p s = (take (length p) s = p)"

text \<open>\<^verbatim>\<open>dict(pairs)\<close>: a key keeps the place of its first pair and the value of its last.\<close>

definition py_dict :: "pydict \<Rightarrow> pydict" where
  "py_dict pairs = fold (\<lambda>(k, v) d. AList.update k v d) pairs []"

text \<open>\<^verbatim>\<open>s.split(c)\<close> and \<^verbatim>\<open>c.join(parts)\<close> for a one-character separator.\<close>

fun split_chr :: "char \<Rightarrow> string \<Rightarrow> string list" where
  "split_chr c [] = [[]]"
| "split_chr c (x # xs) =
     (if x = c then [] # split_chr c xs
      else (case split_chr c xs of [] \<Rightarrow> [[x]] | p # ps \<Rightarrow> (x # p) # ps))"

fun join_chr :: "char \<Rightarrow> string list \<Rightarrow> string" where
  "join_chr c [] = []"
| "join_chr c [p] = p"
| "join_chr c (p # q # ps) = p @ c # join_chr c (q # ps)"

section \<open>Decoding of Markdown extensions\<close>

definition BUILTIN_KEYS :: "string list" where
  "BUILTIN_KEYS = [''basepath'', ''references'', ''destination'']"

definition extended_decode :: "host \<Rightarrow> pydict \<Rightarrow> pyerr + pyval" where
  "extended_decode h d =
     (case map_of d ''!!python/name'' of
        None \<Rightarrow> Inr (PDict d)
      | Some (PStr s) \<Rightarrow>
          (let parts = split_chr (CHR ''.'') s;
               function = last parts;
               module = join_chr (CHR ''.'') (butlast parts)
           in import_attr h module function)
      | Some _ \<Rightarrow> Inl AttributeError)"

text \<open>
  \<^verbatim>\<open>json.dumps\<close> raises on a value that is not JSON; the text it writes is not modelled,
  a value that passes stands for its own document.
\<close>

fun json_dumps :: "pyval \<Rightarrow> bool"
  and json_dumps_list :: "pyval list \<Rightarrow> bool"
  and json_dumps_items :: "pydict \<Rightarrow> bool" where
  "json_dumps (PObj m f) = False"
| "json_dumps (PList xs) = json_dumps_list xs"
| "json_dumps (PDict kvs) = json_dumps_items kvs"
| "json_dumps PNone = True"
| "json_dumps (PBool b) = True"
| "json_dumps (PInt i) = True"
| "json_dumps (PStr s) = True"
| "json_dumps_list [] = True"
| "json_dumps_list (x # xs) = (json_dumps x \<and> json_dumps_list xs)"
| "json_dumps_items [] = True"
| "json_dumps_items (kv # kvs) = (json_dumps (snd kv) \<and> json_dumps_items kvs)"

text \<open>\<^verbatim>\<open>json.loads(doc, object_hook=extended_decode)\<close>: the hook sees every decoded object,
  the inner ones first.\<close>

fun json_loads :: "host \<Rightarrow> pyval \<Rightarrow> pyerr + pyval"
  and json_loads_list :: "host \<Rightarrow> pyval list \<Rightarrow> pyerr + pyval list"
  and json_loads_items :: "host \<Rightarrow> pydict \<Rightarrow> pyerr + pydict" where
  "json_loads h (PList xs) =
     (case json_loads_list h xs of Inl e \<Rightarrow> Inl e | Inr ys \<Rightarrow> Inr (PList ys))"
| "json_loads h (PDict kvs) =
     (case json_loads_items h kvs of
        Inl e \<Rightarrow> Inl e
      | Inr pairs \<Rightarrow> extended_decode h (py_dict pairs))"
| "json_loads h PNone = Inr PNone"
| "json_loads h (PBool b) = Inr (PBool b)"
| "json_loads h (PInt i) = Inr (PInt i)"
| "json_loads h (PStr s) = Inr (PStr s)"
| "json_loads h (PObj m f) = Inr (PObj m f)"
| "json_loads_list h [] = Inr []"
| "json_loads_list h (x # xs) =
     (case json_loads h x of
        Inl e \<Rightarrow> Inl e
      | Inr y \<Rightarrow> (case json_loads_list h xs of Inl e \<Rightarrow> Inl e | Inr ys \<Rightarrow> Inr (y # ys)))"
| "json_loads_items h [] = Inr []"
| "json_loads_items h (kv # kvs) =
     (case json_loads h (snd kv) of
        Inl e \<Rightarrow> Inl e
      | Inr y \<Rightarrow>
          (case json_loads_items h kvs of
             Inl e \<Rightarrow> Inl e
           | Inr d \<Rightarrow> Inr ((fst kv, y) # d)))"

section \<open>The Settings object\<close>

text \<open>
  \<open>sub_settings\<close> is the host's settings object, read through its \<^verbatim>\<open>get(key, default)\<close>
  and \<^verbatim>\<open>has(key)\<close>; \<open>overrides\<close> is the dictionary \<^verbatim>\<open>_overrides\<close>.
\<close>

record settings =
  file_name :: "string option"
  sub_settings :: "string \<rightharpoonup> pyval"
  overrides :: pydict

definition parse_md_ext :: "host \<Rightarrow> settings \<Rightarrow> pyerr + pyval" where
  "parse_md_ext h s =
     (let extensions =
            (case sub_settings s ''markdown_extensions'' of None \<Rightarrow> PDict [] | Some v \<Rightarrow> v)
      in if json_dumps extensions then json_loads h extensions else Inl TypeError)"

definition get :: "host \<Rightarrow> settings \<Rightarrow> string \<Rightarrow> pyval \<Rightarrow> pyerr + pyval" where
  "get h s key dflt =
     (case map_of (overrides s) key of
        Some v \<Rightarrow> Inr v
      | None \<Rightarrow>
          if key = ''markdown_extensions'' then parse_md_ext h s
          else Inr (case sub_settings s key of None \<Rightarrow> dflt | Some v \<Rightarrow> v))"

definition set_val :: "settings \<Rightarrow> string \<Rightarrow> pyval \<Rightarrow> settings" where
  "set_val s key v = s\<lparr>overrides := AList.update key v (overrides s)\<rparr>"

definition has :: "settings \<Rightarrow> string \<Rightarrow> bool" where
  "has s key =
     (let found = (map_of (overrides s) key \<noteq> None)
      in if \<not> found then sub_settings s key \<noteq> None else found)"

definition ascii_letter :: "char \<Rightarrow> bool" where
  "ascii_letter c =
     ((65 \<le> (of_char c :: nat) \<and> (of_char c :: nat) \<le> 90)
      \<or> (97 \<le> (of_char c :: nat) \<and> (of_char c :: nat) \<le> 122))"

text \<open>The regular expression \<^verbatim>\<open>(^[A-Za-z]{1}:(?:\\|/))\<close>, matched at the start.\<close>

definition re_win_drive :: "string \<Rightarrow> bool" where
  "re_win_drive p =
     (case p of
        a # b # c # _ \<Rightarrow> ascii_letter a \<and> b = CHR '':'' \<and> (c = CHR 0x5C \<or> c = CHR ''/'')
      | _ \<Rightarrow> False)"

definition is_abs :: "host \<Rightarrow> string option \<Rightarrow> bool" where
  "is_abs h pth =
     (case pth of
        None \<Rightarrow> False
      | Some p \<Rightarrow>
          if startswith ''win'' (platform h) then re_win_drive p \<or> startswith ''//'' p
          else startswith ''/'' p)"

text \<open>The loop \<^verbatim>\<open>for base in (current_dir, basepath)\<close> of \<^verbatim>\<open>resolve_meta_path\<close>.\<close>

fun try_bases :: "host \<Rightarrow> string \<Rightarrow> pyval list \<Rightarrow> pyerr + string" where
  "try_bases h target [] = Inr target"
| "try_bases h target (PNone # bases) = try_bases h target bases"
| "try_bases h target (PStr base # bases) =
     (let temp = path_join h base target
      in if path_exists h temp then Inr temp else try_bases h target bases)"
| "try_bases h target (_ # bases) = Inl TypeError"

definition resolve_meta_path :: "host \<Rightarrow> settings \<Rightarrow> pyval \<Rightarrow> pyerr + string option" where
  "resolve_meta_path h s target =
     (case map_of (overrides s) ''builtin'' of
        None \<Rightarrow> Inl KeyError
      | Some (PDict builtin) \<Rightarrow>
          (let basepath = (case map_of builtin ''basepath'' of None \<Rightarrow> PNone | Some b \<Rightarrow> b);
               current_dir = (case file_name s of None \<Rightarrow> PNone | Some f \<Rightarrow> PStr (dirname h f))
           in case target of
                PNone \<Rightarrow> Inr None
              | PStr t \<Rightarrow>
                  (let target = expanduser h t
                   in if \<not> is_abs h (Some target) then
                        (case try_bases h target [current_dir, basepath] of
                           Inl e \<Rightarrow> Inl e
                         | Inr p \<Rightarrow> Inr (Some p))
                      else if \<not> path_exists h target then Inr None
                      else Inr (Some target))
              | _ \<Rightarrow> Inl TypeError)
      | Some _ \<Rightarrow> Inl AttributeError)"

definition get_base_path :: "host \<Rightarrow> settings \<Rightarrow> pyval \<Rightarrow> pyerr + string option" where
  "get_base_path h s basepath =
     (let fallback =
            (case file_name s of
               None \<Rightarrow> None
             | Some f \<Rightarrow> if path_exists h f then Some (dirname h f) else None)
      in case basepath of
           PNone \<Rightarrow> Inr fallback
         | PStr b \<Rightarrow>
             (let basepath = expanduser h b
              in if path_exists h basepath \<and> is_abs h (Some basepath) \<and> isdir h basepath
                 then Inr (Some basepath)
                 else Inr fallback)
         | _ \<Rightarrow> Inl TypeError)"

text \<open>\<^verbatim>\<open>Settings(settings_file, file_name)\<close>; \<open>store\<close> is what
  \<^verbatim>\<open>sublime.load_settings(settings_file)\<close> returns.\<close>

definition init :: "host \<Rightarrow> (string \<rightharpoonup> pyval) \<Rightarrow> string option \<Rightarrow> pyerr + settings" where
  "init h store fname =
     (let s = \<lparr>file_name = fname, sub_settings = store, overrides = []\<rparr>
      in case get_base_path h s PNone of
           Inl e \<Rightarrow> Inl e
         | Inr bp \<Rightarrow>
             Inr (s\<lparr>overrides :=
                      [(''builtin'', PDict [(''references'', PList []), (''basepath'', py_of_opt bp)]),
                       (''meta'', PDict [])]\<rparr>))"

definition add_meta :: "settings \<Rightarrow> pydict \<Rightarrow> pyerr + settings" where
  "add_meta s meta =
     (case (case map_of (overrides s) ''meta'' of
              None \<Rightarrow> Inr []
            | Some (PDict m) \<Rightarrow> Inr m
            | Some _ \<Rightarrow> Inl AttributeError) of
        Inl e \<Rightarrow> Inl e
      | Inr existing \<Rightarrow>
          Inr (s\<lparr>overrides :=
                   AList.update ''meta'' (PDict (py_dict (meta @ existing))) (overrides s)\<rparr>))"

text \<open>The assignment \<^verbatim>\<open>self._overrides[outer][key] = v\<close>.\<close>

definition set_nested :: "settings \<Rightarrow> string \<Rightarrow> string \<Rightarrow> pyval \<Rightarrow> pyerr + settings" where
  "set_nested s outer key v =
     (case map_of (overrides s) outer of
        None \<Rightarrow> Inl KeyError
      | Some (PDict d) \<Rightarrow>
          Inr (s\<lparr>overrides := AList.update outer (PDict (AList.update key v d)) (overrides s)\<rparr>)
      | Some _ \<Rightarrow> Inl TypeError)"

text \<open>The loop \<^verbatim>\<open>for ref in value\<close> that builds \<^verbatim>\<open>refs\<close>.\<close>

fun collect_refs :: "host \<Rightarrow> settings \<Rightarrow> pyval list \<Rightarrow> pyerr + pyval list" where
  "collect_refs h s [] = Inr []"
| "collect_refs h s (ref # rest) =
     (case resolve_meta_path h s ref of
        Inl e \<Rightarrow> Inl e
      | Inr fname \<Rightarrow>
          (case collect_refs h s rest of
             Inl e \<Rightarrow> Inl e
           | Inr refs \<Rightarrow>
               Inr ((case fname of
                       None \<Rightarrow> []
                     | Some f \<Rightarrow> if \<not> isdir h f then [PStr (normpath h f)] else []) @ refs)))"

definition apply_references :: "host \<Rightarrow> settings \<Rightarrow> pyval \<Rightarrow> pyerr + settings" where
  "apply_references h s v =
     (let value = (case v of PList xs \<Rightarrow> xs | _ \<Rightarrow> [v])
      in case collect_refs h s value of
           Inl e \<Rightarrow> Inl e
         | Inr refs \<Rightarrow> set_nested s ''builtin'' ''references'' (PList refs))"

definition apply_destination :: "host \<Rightarrow> settings \<Rightarrow> pyval \<Rightarrow> pyerr + settings" where
  "apply_destination h s v =
     (case v of
        PNone \<Rightarrow> Inr s
      | PStr fname \<Rightarrow>
          (case resolve_meta_path h s (PStr (dirname h fname)) of
             Inl e \<Rightarrow> Inl e
           | Inr directory \<Rightarrow>
               (let fname' = (case directory of
                                None \<Rightarrow> fname
                              | Some d \<Rightarrow> path_join h d (basename h fname))
                in if \<not> path_exists h fname' \<or> \<not> isdir h fname'
                   then set_nested s ''builtin'' ''destination'' (PStr fname')
                   else Inr s))
      | _ \<Rightarrow> Inl TypeError)"

definition apply_meta :: "host \<Rightarrow> settings \<Rightarrow> string \<Rightarrow> pyval \<Rightarrow> pyerr + settings" where
  "apply_meta h s key v =
     (let value = (case v of
                     PList vs \<Rightarrow> PList (map (\<lambda>x. PStr (py_str h x)) vs)
                   | _ \<Rightarrow> PStr (py_str h v))
      in set_nested s ''meta'' key value)"

text \<open>One round of the loop \<^verbatim>\<open>for key, value in frontmatter.items()\<close>.\<close>

definition apply_item :: "host \<Rightarrow> settings \<Rightarrow> string \<times> pyval \<Rightarrow> pyerr + settings" where
  "apply_item h s kv =
     (let key = fst kv; v = snd kv
      in case (if key = ''settings'' then (case v of PDict d \<Rightarrow> Some d | _ \<Rightarrow> None) else None) of
           Some d \<Rightarrow>
             Inr (s\<lparr>overrides := fold (\<lambda>(subkey, subvalue) ov. AList.update subkey subvalue ov)
                                      d (overrides s)\<rparr>)
         | None \<Rightarrow>
             if key \<in> set BUILTIN_KEYS then
               (case (if key = ''references'' then apply_references h s v else Inr s) of
                  Inl e \<Rightarrow> Inl e
                | Inr s1 \<Rightarrow> if key = ''destination'' then apply_destination h s1 v else Inr s1)
             else apply_meta h s key v)"

text \<open>The loop itself: the state it reached and the exception that stopped it, if any.\<close>

fun apply_items :: "host \<Rightarrow> settings \<Rightarrow> pydict \<Rightarrow> settings \<times> pyerr option" where
  "apply_items h s [] = (s, None)"
| "apply_items h s (kv # kvs) =
     (case apply_item h s kv of
        Inl e \<Rightarrow> (s, Some e)
      | Inr s' \<Rightarrow> apply_items h s' kvs)"

text \<open>
  \<^verbatim>\<open>apply_frontmatter\<close> changes the object and its argument in place and returns
  nothing, so its result is both of them afterwards and the exception it raised, if any.
\<close>

record outcome =
  self_after :: settings
  frontmatter_after :: pydict
  raised :: "pyerr option"

definition run_items :: "host \<Rightarrow> settings \<Rightarrow> pydict \<Rightarrow> outcome" where
  "run_items h s fm =
     (let r = apply_items h s fm
      in \<lparr>self_after = fst r, frontmatter_after = fm, raised = snd r\<rparr>)"

definition apply_frontmatter :: "host \<Rightarrow> settings \<Rightarrow> pydict \<Rightarrow> outcome" where
  "apply_frontmatter h s frontmatter =
     (case map_of frontmatter ''basepath'' of
        None \<Rightarrow> run_items h s frontmatter
      | Some v \<Rightarrow>
          (case get_base_path h s v of
             Inl e \<Rightarrow> \<lparr>self_after = s, frontmatter_after = frontmatter, raised = Some e\<rparr>
           | Inr bp \<Rightarrow>
               (case set_nested s ''builtin'' ''basepath'' (py_of_opt bp) of
                  Inl e \<Rightarrow> \<lparr>self_after = s, frontmatter_after = frontmatter, raised = Some e\<rparr>
                | Inr s1 \<Rightarrow> run_items h s1 (AList.delete ''basepath'' frontmatter))))"

text \<open>
  The operations that change a Settings object, and a caller that runs a sequence of
  them, going on after an exception. A call is run on the object as the calls before left
  it; what comes back is the object afterwards and, for \<^verbatim>\<open>apply_frontmatter\<close>, the
  dictionary the caller passed as that call leaves it (\<^verbatim>\<open>set\<close> and \<^verbatim>\<open>add_meta\<close> do not
  write to their arguments).
\<close>

datatype operation =
    Set string pyval
  | AddMeta pydict
  | ApplyFrontmatter pydict

fun run_op :: "host \<Rightarrow> settings \<Rightarrow> operation \<Rightarrow> settings \<times> pydict option" where
  "run_op h s (Set key v) = (set_val s key v, None)"
| "run_op h s (AddMeta meta) = (case add_meta s meta of Inl e \<Rightarrow> (s, None) | Inr s' \<Rightarrow> (s', None))"
| "run_op h s (ApplyFrontmatter fm) =
     (let r = apply_frontmatter h s fm in (self_after r, Some (frontmatter_after r)))"

fun run_ops :: "host \<Rightarrow> settings \<Rightarrow> operation list \<Rightarrow> settings \<times> pydict option list" where
  "run_ops h s [] = (s, [])"
| "run_ops h s (op # ops) =
     (let r = run_op h s op; rs = run_ops h (fst r) ops in (fst rs, snd r # snd rs))"

text \<open>
  What a call may have done to the keys of the dictionary it was given: an
  \<^verbatim>\<open>apply_frontmatter\<close> leaves them as they were or without \<^verbatim>\<open>basepath\<close>; the other
  operations are given no dictionary to change.
\<close>

definition argument_after :: "operation \<Rightarrow> pydict option \<Rightarrow> bool" where
  "argument_after op a =
     (case op of
        ApplyFrontmatter fm \<Rightarrow>
          (case a of
             None \<Rightarrow> False
           | Some fm' \<Rightarrow>
               map fst fm' = map fst fm
               \<or> map fst fm' = filter (\<lambda>k. k \<noteq> ''basepath'') (map fst fm))
      | _ \<Rightarrow> a = None)"


section \<open>Observations and the specification's reading of the path rules\<close>

text \<open>\<^verbatim>\<open>self._overrides["builtin"].get(k)\<close> and \<^verbatim>\<open>self._overrides["meta"]\<close>, where they are
  dictionaries.\<close>

definition stored_builtin :: "settings \<Rightarrow> string \<Rightarrow> pyval option" where
  "stored_builtin s k =
     (case map_of (overrides s) ''builtin'' of Some (PDict b) \<Rightarrow> map_of b k | _ \<Rightarrow> None)"

definition stored_meta :: "settings \<Rightarrow> pydict option" where
  "stored_meta s = (case map_of (overrides s) ''meta'' of Some (PDict m) \<Rightarrow> Some m | _ \<Rightarrow> None)"

text \<open>The builtin dictionary is there and its base path is \<open>bp\<close>: a path, or none.\<close>

definition has_basepath :: "settings \<Rightarrow> string option \<Rightarrow> bool" where
  "has_basepath s bp =
     (case map_of (overrides s) ''builtin'' of
        Some (PDict b) \<Rightarrow>
          (case map_of b ''basepath'' of
             None \<Rightarrow> bp = None
           | Some PNone \<Rightarrow> bp = None
           | Some (PStr p) \<Rightarrow> bp = Some p
           | Some _ \<Rightarrow> False)
      | _ \<Rightarrow> False)"

text \<open>
  The path rule in the specification's words: an absolute target stands for itself if it
  exists; a relative one is joined to the document's directory, then to the base path, and
  the first join that exists is taken, the target itself if none does.
\<close>

definition resolve_spec :: "host \<Rightarrow> string option \<Rightarrow> string option \<Rightarrow> string \<Rightarrow> string option" where
  "resolve_spec h doc_dir bp t =
     (if is_abs h (Some t) then (if path_exists h t then Some t else None)
      else (case find (path_exists h) (map (\<lambda>b. path_join h b t) (List.map_filter id [doc_dir, bp])) of
              Some p \<Rightarrow> Some p
            | None \<Rightarrow> Some t))"

text \<open>The references a front-matter value names, and what the specification stores for
  them in a state \<open>s\<close>.\<close>

definition listify :: "pyval \<Rightarrow> pyval list" where
  "listify v = (case v of PList xs \<Rightarrow> xs | _ \<Rightarrow> [v])"

definition resolved_refs :: "host \<Rightarrow> settings \<Rightarrow> pyval \<Rightarrow> pyval list" where
  "resolved_refs h s v =
     map (\<lambda>f. PStr (normpath h f))
       (filter (\<lambda>f. \<not> isdir h f)
         (List.map_filter
            (\<lambda>r. case resolve_meta_path h s r of Inr (Some f) \<Rightarrow> Some f | _ \<Rightarrow> None)
            (listify v)))"

definition resolved_destination :: "host \<Rightarrow> settings \<Rightarrow> string \<Rightarrow> string" where
  "resolved_destination h s d =
     (case resolve_meta_path h s (PStr (dirname h d)) of
        Inr (Some r) \<Rightarrow> path_join h r (basename h d)
      | _ \<Rightarrow> d)"

text \<open>The keys that a \<^verbatim>\<open>settings\<close> dictionary of the front matter writes at the top of the
  overrides.\<close>

definition settings_keys :: "pydict \<Rightarrow> string list" where
  "settings_keys fm = (case map_of fm ''settings'' of Some (PDict d) \<Rightarrow> map fst d | _ \<Rightarrow> [])"

text \<open>Two states of the object in which \<^verbatim>\<open>resolve_meta_path\<close> sees the same document and
  the same base path.\<close>

definition same_base :: "settings \<Rightarrow> settings \<Rightarrow> bool" where
  "same_base s s' =
     (file_name s' = file_name s
      \<and> (map_of (overrides s') ''builtin'' = map_of (overrides s) ''builtin''
         \<or> (\<exists>b b'. map_of (overrides s) ''builtin'' = Some (PDict b)
                \<and> map_of (overrides s') ''builtin'' = Some (PDict b')
                \<and> map_of b' ''basepath'' = map_of b ''basepath'')))"

text \<open>No \<^verbatim>\<open>settings\<close> dictionary among the items replaces the builtin dictionary.\<close>

definition safe_items :: "pydict \<Rightarrow> bool" where
  "safe_items items = (\<forall>d. (''settings'', PDict d) \<in> set items \<longrightarrow> ''builtin'' \<notin> fst ` set d)"

section \<open>A small POSIX host for evaluating the model\<close>

definition posix_join :: "string \<Rightarrow> string \<Rightarrow> string" where
  "posix_join a b =
     (if startswith ''/'' b then b
      else if a = [] \<or> last a = CHR ''/'' then a @ b
      else a @ ''/'' @ b)"

definition posix_basename :: "string \<Rightarrow> string" where
  "posix_basename p = rev (takeWhile (\<lambda>c. c \<noteq> CHR ''/'') (rev p))"

definition posix_dirname :: "string \<Rightarrow> string" where
  "posix_dirname p =
     (let head = rev (dropWhile (\<lambda>c. c \<noteq> CHR ''/'') (rev p))
      in if head \<noteq> [] \<and> (\<exists>c \<in> set head. c \<noteq> CHR ''/'')
         then rev (dropWhile (\<lambda>c. c = CHR ''/'') (rev head))
         else head)"

text \<open>A host with the given files and directories, no home directory to expand, no
  module to import, and paths that are already normal.\<close>

definition posix_host :: "string list \<Rightarrow> string list \<Rightarrow> host" where
  "posix_host files dirs =
     \<lparr>platform = ''linux'',
      expanduser = (\<lambda>p. p),
      path_exists = (\<lambda>p. p \<in> set files \<or> p \<in> set dirs),
      isdir = (\<lambda>p. p \<in> set dirs),
      path_join = posix_join,
      dirname = posix_dirname,
      basename = posix_basename,
      normpath = (\<lambda>p. p),
      import_attr = (\<lambda>m f. Inl ImportError),
      py_repr = (\<lambda>v. ''?'')\<rparr>"

text \<open>The object \<^verbatim>\<open>Settings(settings_file, None)\<close> over a store, as \<open>init\<close> builds it.\<close>

definition fresh :: "(string \<rightharpoonup> pyval) \<Rightarrow> settings" where
  "fresh store =
     \<lparr>file_name = None, sub_settings = store,
      overrides = [(''builtin'', PDict [(''references'', PList []), (''basepath'', PNone)]),
                   (''meta'', PDict [])]\<rparr>"

text \<open>A document \<^verbatim>\<open>/w/a.md\<close> on a small file system, and the object that
  \<^verbatim>\<open>Settings(settings_file, "/w/a.md")\<close> is there, over a store whose only entry is an
  application default for \<^verbatim>\<open>basepath\<close>.\<close>

definition sample_host :: host where
  "sample_host =
     posix_host [''/w/a.md'', ''/w/refs.bib''] [''/w'', ''/w/img'', ''/w/out'', ''/docs'']"

definition sample_settings :: settings where
  "sample_settings =
     \<lparr>file_name = Some ''/w/a.md'', sub_settings = [''basepath'' \<mapsto> PStr ''/app''],
      overrides = [(''builtin'', PDict [(''references'', PList []), (''basepath'', PStr ''/w'')]),
                   (''meta'', PDict [])]\<rparr>"

section \<open>The object after construction\<close>

lemma init_fresh: "init (posix_host [] []) store None = Inr (fresh store)"
  by (simp add: init_def fresh_def get_base_path_def py_of_opt_def)

lemma init_sample:
  "init sample_host [''basepath'' \<mapsto> PStr ''/app''] (Some ''/w/a.md'') = Inr sample_settings"
  by (simp add: init_def sample_settings_def sample_host_def get_base_path_def py_of_opt_def
      posix_host_def posix_dirname_def)

lemma init_has_basepath:
  assumes "init h store fname = Inr s"
  shows "\<exists>bp. has_basepath s bp \<and> stored_meta s = Some []"
proof -
  from assms obtain bp where "get_base_path h \<lparr>file_name = fname, sub_settings = store, overrides = []\<rparr> PNone = Inr bp"
    and s: "s = \<lparr>file_name = fname, sub_settings = store,
                 overrides = [(''builtin'', PDict [(''references'', PList []), (''basepath'', py_of_opt bp)]),
                              (''meta'', PDict [])]\<rparr>"
    by (auto simp: init_def Let_def split: sum.splits)
  have "has_basepath s bp" unfolding s by (cases bp) (simp_all add: has_basepath_def py_of_opt_def)
  moreover have "stored_meta s = Some []" unfolding s by (simp add: stored_meta_def)
  ultimately show ?thesis by blast
qed

section \<open>Lookup through the override layer\<close>

text \<open>
  C3. Right after \<^verbatim>\<open>set(k, v)\<close>, \<^verbatim>\<open>has(k)\<close> is true and \<^verbatim>\<open>get(k, d)\<close> returns \<open>v\<close>,
  whatever the default \<open>d\<close>, the key and the state before.
\<close>

theorem set_get_roundtrip:
  "has (set_val s k v) k \<and> get h (set_val s k v) k d = Inr v"
  by (simp add: has_def get_def set_val_def update_conv')

theorem set_get_roundtrip_witness:
  "has (set_val (fresh Map.empty) ''markdown_extensions'' (PInt 1)) ''markdown_extensions''
   \<and> get (posix_host [] []) (set_val (fresh Map.empty) ''markdown_extensions'' (PInt 1))
        ''markdown_extensions'' PNone = Inr (PInt 1)"
  by (rule set_get_roundtrip)

text \<open>
  C1, as the specification states it, fails: for the key \<^verbatim>\<open>markdown_extensions\<close> with no
  override and no entry in the host store, \<^verbatim>\<open>get\<close> returns the empty dictionary, not the
  caller's default.
\<close>

theorem get_markdown_extensions_ignores_default:
  "map_of (overrides (fresh Map.empty)) ''markdown_extensions'' = None
   \<and> sub_settings (fresh Map.empty) ''markdown_extensions'' = None
   \<and> get (posix_host [] []) (fresh Map.empty) ''markdown_extensions'' (PInt 0) = Inr (PDict [])
   \<and> PDict [] \<noteq> PInt 0"
  by (simp add: get_def fresh_def parse_md_ext_def extended_decode_def py_dict_def)

text \<open>
  C1, amended. \<^verbatim>\<open>get(k, d)\<close> returns the override when \<open>k\<close> is a key of the override
  dictionary. Otherwise, for every key but \<^verbatim>\<open>markdown_extensions\<close>, it returns the host
  store's value, or \<open>d\<close> when the store has none; for \<^verbatim>\<open>markdown_extensions\<close> it returns the
  decoded extensions of the store and does not use \<open>d\<close>.
\<close>

theorem get_layered:
  "(map_of (overrides s) k = Some v \<longrightarrow> get h s k d = Inr v)
   \<and> (map_of (overrides s) k = None \<and> k \<noteq> ''markdown_extensions'' \<longrightarrow>
        get h s k d = Inr (case sub_settings s k of None \<Rightarrow> d | Some x \<Rightarrow> x))
   \<and> (map_of (overrides s) k = None \<and> k = ''markdown_extensions'' \<longrightarrow>
        get h s k d = parse_md_ext h s)"
  by (auto simp add: get_def)

theorem get_layered_witness:
  "map_of (overrides (fresh [''css'' \<mapsto> PStr ''a.css''])) ''css'' = None
   \<and> ''css'' \<noteq> ''markdown_extensions''
   \<and> get (posix_host [] []) (fresh [''css'' \<mapsto> PStr ''a.css'']) ''css'' PNone = Inr (PStr ''a.css'')
   \<and> map_of (overrides (fresh Map.empty)) ''meta'' = Some (PDict [])
   \<and> get (posix_host [] []) (fresh Map.empty) ''meta'' PNone = Inr (PDict [])"
  using get_layered [of "fresh [''css'' \<mapsto> PStr ''a.css'']" "''css''" PNone "posix_host [] []" PNone]
    get_layered [of "fresh Map.empty" "''meta''" "PDict []" "posix_host [] []" PNone]
  by (simp add: fresh_def)

section \<open>The base path\<close>

text \<open>
  C5. For a base path that is a string, \<^verbatim>\<open>get_base_path\<close> returns the user-expanded path
  when that is absolute, exists and is a directory; otherwise, and for no base path at all,
  it returns the directory of the document's file name when the name is there and the file
  exists, and nothing otherwise.
\<close>

theorem get_base_path_cases:
  "get_base_path h s PNone =
     Inr (case file_name s of
            None \<Rightarrow> None
          | Some f \<Rightarrow> if path_exists h f then Some (dirname h f) else None)
   \<and> get_base_path h s (PStr b) =
     Inr (if is_abs h (Some (expanduser h b)) \<and> path_exists h (expanduser h b)
             \<and> isdir h (expanduser h b)
          then Some (expanduser h b)
          else (case file_name s of
                  None \<Rightarrow> None
                | Some f \<Rightarrow> if path_exists h f then Some (dirname h f) else None))"
  by (auto simp add: get_base_path_def Let_def)

theorem get_base_path_cases_witness:
  "get_base_path (posix_host [''/w/a.md''] [''/docs''])
     \<lparr>file_name = Some ''/w/a.md'', sub_settings = Map.empty, overrides = []\<rparr> PNone
     = Inr (Some ''/w'')
   \<and> get_base_path (posix_host [''/w/a.md''] [''/docs''])
     \<lparr>file_name = Some ''/w/a.md'', sub_settings = Map.empty, overrides = []\<rparr> (PStr ''/docs'')
     = Inr (Some ''/docs'')"
  using get_base_path_cases [of "posix_host [''/w/a.md''] [''/docs'']"
      "\<lparr>file_name = Some ''/w/a.md'', sub_settings = Map.empty, overrides = []\<rparr>" "''/docs''"]
  by (simp add: posix_host_def is_abs_def startswith_def posix_dirname_def)

section \<open>The host store is only read\<close>

lemma set_nested_frame:
  "set_nested s a k v = Inr s' \<Longrightarrow> sub_settings s' = sub_settings s \<and> file_name s' = file_name s"
  by (auto simp: set_nested_def split: option.splits pyval.splits)

lemma apply_item_frame:
  "apply_item h s kv = Inr s' \<Longrightarrow> sub_settings s' = sub_settings s \<and> file_name s' = file_name s"
  by (auto simp: apply_item_def apply_references_def apply_destination_def apply_meta_def Let_def
      split: option.splits pyval.splits if_splits sum.splits dest: set_nested_frame)

lemma apply_items_frame:
  "apply_items h s kvs = (s', e) \<Longrightarrow> sub_settings s' = sub_settings s \<and> file_name s' = file_name s"
proof (induction kvs arbitrary: s)
  case Nil
  then show ?case by simp
next
  case (Cons kv kvs)
  show ?case
  proof (cases "apply_item h s kv")
    case (Inl a)
    with Cons.prems show ?thesis by simp
  next
    case (Inr s1)
    with Cons.prems have "apply_items h s1 kvs = (s', e)" by simp
    from Cons.IH [OF this] apply_item_frame [OF Inr] show ?thesis by simp
  qed
qed

lemma apply_items_fst_frame:
  "sub_settings (fst (apply_items h s kvs)) = sub_settings s
   \<and> file_name (fst (apply_items h s kvs)) = file_name s"
  using apply_items_frame [OF surjective_pairing] .

lemma apply_frontmatter_frame:
  "sub_settings (self_after (apply_frontmatter h s fm)) = sub_settings s
   \<and> file_name (self_after (apply_frontmatter h s fm)) = file_name s"
  by (auto simp: apply_frontmatter_def run_items_def Let_def split: option.splits sum.splits
      simp: apply_items_fst_frame dest: set_nested_frame)

lemma run_op_frame:
  "sub_settings (fst (run_op h s op)) = sub_settings s
   \<and> file_name (fst (run_op h s op)) = file_name s"
  by (cases op)
    (auto simp: set_val_def add_meta_def apply_frontmatter_frame Let_def
      split: sum.splits option.splits pyval.splits)

lemma apply_frontmatter_keys:
  "map fst (frontmatter_after (apply_frontmatter h s fm)) = map fst fm
   \<or> map fst (frontmatter_after (apply_frontmatter h s fm))
        = filter (\<lambda>k. k \<noteq> ''basepath'') (map fst fm)"
proof (cases "map_of fm ''basepath''")
  case None
  then show ?thesis by (simp add: apply_frontmatter_def run_items_def Let_def)
next
  case (Some v)
  have eq: "removeAll ''basepath'' (map fst fm) = filter (\<lambda>k. k \<noteq> ''basepath'') (map fst fm)"
    by (induction fm) auto
  from Some show ?thesis
    by (auto simp: apply_frontmatter_def run_items_def Let_def delete_keys eq split: sum.splits)
qed

lemma run_op_argument: "argument_after op (snd (run_op h s op))"
proof (cases op)
  case (ApplyFrontmatter fm)
  with apply_frontmatter_keys [of h s fm] show ?thesis
    by (simp add: argument_after_def Let_def)
qed (simp_all add: argument_after_def split: sum.splits)

text \<open>
  C8, as the specification states it, fails in its second half: the modifications are not
  confined to the override dictionary, since \<^verbatim>\<open>apply_frontmatter\<close> deletes \<^verbatim>\<open>basepath\<close> from
  the dictionary its caller passed.
\<close>

theorem apply_frontmatter_changes_argument:
  "snd (run_ops (posix_host [] []) (fresh Map.empty)
          [ApplyFrontmatter [(''basepath'', PNone), (''title'', PStr ''t'')]])
     = [Some [(''title'', PStr ''t'')]]
   \<and> [(''title'', PStr ''t'')] \<noteq> [(''basepath'', PNone), (''title'', PStr ''t'')]"
  by (simp add: apply_frontmatter_def get_base_path_def set_nested_def fresh_def run_items_def
      py_of_opt_def Let_def)

text \<open>
  C8, amended. Whatever sequence of \<^verbatim>\<open>set\<close>, \<^verbatim>\<open>add_meta\<close> and \<^verbatim>\<open>apply_frontmatter\<close> runs on a
  Settings object, also one in which some of them raise, the host store it wraps and its
  file name are afterwards what they were before: within the object the operations change
  the override dictionary only. Outside the object, each \<^verbatim>\<open>apply_frontmatter\<close> leaves the
  keys of the dictionary it was given as they were or without \<^verbatim>\<open>basepath\<close>.
\<close>

theorem run_ops_frame:
  "sub_settings (fst (run_ops h s ops)) = sub_settings s
   \<and> file_name (fst (run_ops h s ops)) = file_name s
   \<and> list_all2 argument_after ops (snd (run_ops h s ops))"
  by (induction ops arbitrary: s) (simp_all add: Let_def run_op_frame run_op_argument)

theorem run_ops_frame_witness:
  "sub_settings
     (fst (run_ops (posix_host [] []) (fresh [''css'' \<mapsto> PStr ''a.css''])
        [Set ''css'' (PStr ''b.css''), AddMeta [(''title'', PStr ''t'')],
         ApplyFrontmatter [(''basepath'', PStr ''/docs''), (''author'', PInt 3)]]))
     = sub_settings (fresh [''css'' \<mapsto> PStr ''a.css''])
   \<and> file_name
     (fst (run_ops (posix_host [] []) (fresh [''css'' \<mapsto> PStr ''a.css''])
        [Set ''css'' (PStr ''b.css''), AddMeta [(''title'', PStr ''t'')],
         ApplyFrontmatter [(''basepath'', PStr ''/docs''), (''author'', PInt 3)]]))
     = file_name (fresh [''css'' \<mapsto> PStr ''a.css''])
   \<and> list_all2 argument_after
       [Set ''css'' (PStr ''b.css''), AddMeta [(''title'', PStr ''t'')],
        ApplyFrontmatter [(''basepath'', PStr ''/docs''), (''author'', PInt 3)]]
       (snd (run_ops (posix_host [] []) (fresh [''css'' \<mapsto> PStr ''a.css''])
        [Set ''css'' (PStr ''b.css''), AddMeta [(''title'', PStr ''t'')],
         ApplyFrontmatter [(''basepath'', PStr ''/docs''), (''author'', PInt 3)]]))"
  by (rule run_ops_frame)

section \<open>The front matter and the meta data\<close>

lemma keys_without:
  "k \<notin> fst ` set fm \<Longrightarrow> filter (\<lambda>x. x \<noteq> k) (map fst fm) = map fst fm"
  by (induction fm) auto

text \<open>
  C9. When \<^verbatim>\<open>apply_frontmatter\<close> returns, the keys of the dictionary it was given are the
  keys it had before without \<^verbatim>\<open>basepath\<close>, in their order: that key is deleted from the
  caller's dictionary and every other key is left in place.
\<close>

theorem frontmatter_basepath_deleted:
  assumes "raised (apply_frontmatter h s fm) = None"
  shows "map fst (frontmatter_after (apply_frontmatter h s fm)) =
           filter (\<lambda>k. k \<noteq> ''basepath'') (map fst fm)"
proof (cases "map_of fm ''basepath''")
  case None
  then have "''basepath'' \<notin> fst ` set fm" by (simp add: map_of_eq_None_iff)
  with None show ?thesis
    by (simp add: apply_frontmatter_def run_items_def Let_def keys_without)
next
  case (Some v)
  have eq: "removeAll ''basepath'' (map fst fm) = filter (\<lambda>k. k \<noteq> ''basepath'') (map fst fm)"
    by (induction fm) auto
  from Some assms show ?thesis
    by (auto simp: apply_frontmatter_def run_items_def Let_def delete_keys eq split: sum.splits)
qed

theorem frontmatter_basepath_deleted_witness:
  "raised (apply_frontmatter (posix_host [] [''/docs'']) (fresh Map.empty)
             [(''title'', PStr ''t''), (''basepath'', PStr ''/docs''), (''destination'', PNone)]) = None
   \<and> map fst (frontmatter_after (apply_frontmatter (posix_host [] [''/docs'']) (fresh Map.empty)
             [(''title'', PStr ''t''), (''basepath'', PStr ''/docs''), (''destination'', PNone)]))
       = [''title'', ''destination'']"
proof -
  have r: "raised (apply_frontmatter (posix_host [] [''/docs'']) (fresh Map.empty)
             [(''title'', PStr ''t''), (''basepath'', PStr ''/docs''), (''destination'', PNone)]) = None"
    by (simp add: apply_frontmatter_def get_base_path_def set_nested_def fresh_def run_items_def
        apply_item_def apply_meta_def apply_destination_def BUILTIN_KEYS_def py_of_opt_def
        py_str_def posix_host_def is_abs_def startswith_def Let_def)
  from frontmatter_basepath_deleted [OF r] r show ?thesis by simp
qed

lemma fold_update_map_of:
  "map_of (fold (\<lambda>(k, v) d. AList.update k v d) pairs acc) k =
     (case map_of (rev pairs) k of Some v \<Rightarrow> Some v | None \<Rightarrow> map_of acc k)"
  by (induction pairs arbitrary: acc) (auto simp: update_conv' map_add_def split: option.splits)

lemma map_of_rev_distinct: "distinct (map fst xs) \<Longrightarrow> map_of (rev xs) = map_of xs"
  by (rule map_of_inject_set [THEN iffD2]) (auto simp: distinct_rev rev_map [symmetric])

lemma py_dict_append:
  assumes "distinct (map fst old)" "distinct (map fst meta)"
  shows "map_of (py_dict (meta @ old)) k =
           (case map_of old k of Some v \<Rightarrow> Some v | None \<Rightarrow> map_of meta k)"
  using assms
  by (simp add: py_dict_def fold_update_map_of map_of_rev_distinct map_add_def split: option.splits)

text \<open>
  C10. \<^verbatim>\<open>add_meta\<close> on an object whose meta data is the dictionary \<open>old\<close> returns, and the
  meta data afterwards has, for every key of \<open>old\<close>, the value \<open>old\<close> had, also where the
  argument has that key; a key of the argument alone is there with the argument's value.
\<close>

theorem add_meta_keeps_stored:
  assumes "stored_meta s = Some old" "distinct (map fst old)" "distinct (map fst meta)"
  shows "\<exists>s' new. add_meta s meta = Inr s' \<and> stored_meta s' = Some new
     \<and> (\<forall>k. map_of new k = (case map_of old k of Some v \<Rightarrow> Some v | None \<Rightarrow> map_of meta k))"
proof -
  from assms(1) have m: "map_of (overrides s) ''meta'' = Some (PDict old)"
    by (auto simp: stored_meta_def split: option.splits pyval.splits)
  let ?s' = "s\<lparr>overrides := AList.update ''meta'' (PDict (py_dict (meta @ old))) (overrides s)\<rparr>"
  have 1: "add_meta s meta = Inr ?s'" using m by (simp add: add_meta_def)
  have 2: "stored_meta ?s' = Some (py_dict (meta @ old))"
    by (simp add: stored_meta_def update_conv')
  from 1 2 py_dict_append [OF assms(2,3)] show ?thesis by blast
qed

theorem add_meta_keeps_stored_witness:
  "\<exists>s' new.
     add_meta \<lparr>file_name = None, sub_settings = Map.empty,
               overrides = [(''meta'', PDict [(''title'', PStr ''old'')])]\<rparr>
       [(''title'', PStr ''new''), (''author'', PStr ''a'')] = Inr s'
     \<and> stored_meta s' = Some new
     \<and> map_of new ''title'' = Some (PStr ''old'')
     \<and> map_of new ''author'' = Some (PStr ''a'')"
proof -
  let ?s = "\<lparr>file_name = None, sub_settings = Map.empty,
             overrides = [(''meta'', PDict [(''title'', PStr ''old'')])]\<rparr>"
  let ?meta = "[(''title'', PStr ''new''), (''author'', PStr ''a'')]"
  have 1: "stored_meta ?s = Some [(''title'', PStr ''old'')]" by (simp add: stored_meta_def)
  have 2: "distinct (map fst [(''title'', PStr ''old'')])" by simp
  have 3: "distinct (map fst ?meta)" by simp
  from add_meta_keeps_stored [OF 1 2 3] obtain s' new where
    a: "add_meta ?s ?meta = Inr s'" and b: "stored_meta s' = Some new"
    and c: "\<forall>k. map_of new k =
              (case map_of [(''title'', PStr ''old'')] k of Some v \<Rightarrow> Some v | None \<Rightarrow> map_of ?meta k)"
    by blast
  from c have "map_of new ''title'' = Some (PStr ''old'')" by simp
  moreover from c have "map_of new ''author'' = Some (PStr ''a'')" by simp
  ultimately show ?thesis using a b by blast
qed

section \<open>Resolving a path of the front matter\<close>

lemma try_bases_spec:
  "try_bases h t [py_of_opt cur, py_of_opt bp] =
     Inr (case find (path_exists h) (map (\<lambda>b. path_join h b t) (List.map_filter id [cur, bp])) of
            Some p \<Rightarrow> p | None \<Rightarrow> t)"
  by (cases cur; cases bp) (simp_all add: py_of_opt_def List.map_filter_simps Let_def)

lemma has_basepath_builtin:
  assumes "has_basepath s bp"
  shows "\<exists>b. map_of (overrides s) ''builtin'' = Some (PDict b)
           \<and> (case map_of b ''basepath'' of None \<Rightarrow> PNone | Some x \<Rightarrow> x) = py_of_opt bp"
proof (cases "map_of (overrides s) ''builtin''")
  case None
  with assms show ?thesis by (simp add: has_basepath_def)
next
  case (Some x)
  show ?thesis
  proof (cases x)
    case (PDict b)
    show ?thesis
    proof (cases "map_of b ''basepath''")
      case None
      with assms Some PDict show ?thesis by (simp add: has_basepath_def py_of_opt_def)
    next
      case (Some y)
      with assms \<open>map_of (overrides s) ''builtin'' = Some x\<close> PDict show ?thesis
        by (cases y) (simp_all add: has_basepath_def py_of_opt_def)
    qed
  qed (use assms Some in \<open>simp_all add: has_basepath_def\<close>)
qed

lemma resolve_meta_path_dict:
  assumes "map_of (overrides s) ''builtin'' = Some (PDict b)"
  shows "resolve_meta_path h s PNone = Inr None"
    and "resolve_meta_path h s (PStr t) =
      (if \<not> is_abs h (Some (expanduser h t)) then
         (case try_bases h (expanduser h t)
                 [case file_name s of None \<Rightarrow> PNone | Some f \<Rightarrow> PStr (dirname h f),
                  case map_of b ''basepath'' of None \<Rightarrow> PNone | Some x \<Rightarrow> x] of
            Inl e \<Rightarrow> Inl e | Inr p \<Rightarrow> Inr (Some p))
       else if \<not> path_exists h (expanduser h t) then Inr None
       else Inr (Some (expanduser h t)))"
  using assms by (simp_all add: resolve_meta_path_def Let_def)

text \<open>
  C4. On an object whose builtin base path is a path or none, \<^verbatim>\<open>resolve_meta_path\<close>
  returns, and what it returns is what the rule says for the user-expanded target: an
  absolute target itself if it exists and nothing if not; for a relative target the first
  existing join, with the document's directory tried before the base path (a directory or
  base path that is not there gives no join), and the expanded target itself when no join
  exists. No target gives nothing.
\<close>

theorem resolve_meta_path_rule:
  assumes "has_basepath s bp"
  shows "resolve_meta_path h s PNone = Inr None
       \<and> resolve_meta_path h s (PStr t) =
           Inr (resolve_spec h (map_option (dirname h) (file_name s)) bp (expanduser h t))"
proof -
  from has_basepath_builtin [OF assms] obtain b where
    b: "map_of (overrides s) ''builtin'' = Some (PDict b)"
    and bp: "(case map_of b ''basepath'' of None \<Rightarrow> PNone | Some x \<Rightarrow> x) = py_of_opt bp"
    by blast
  have cur: "(case file_name s of None \<Rightarrow> PNone | Some f \<Rightarrow> PStr (dirname h f))
               = py_of_opt (map_option (dirname h) (file_name s))"
    by (simp add: py_of_opt_def split: option.splits)
  have 2: "resolve_meta_path h s (PStr t) =
           Inr (resolve_spec h (map_option (dirname h) (file_name s)) bp (expanduser h t))"
    unfolding resolve_meta_path_dict(2) [OF b] bp cur try_bases_spec resolve_spec_def
    by (simp split: option.splits)
  from resolve_meta_path_dict(1) [OF b] 2 show ?thesis by simp
qed

theorem resolve_meta_path_rule_witness:
  "has_basepath
     \<lparr>file_name = Some ''/w/a.md'', sub_settings = Map.empty,
      overrides = [(''builtin'', PDict [(''references'', PList []), (''basepath'', PStr ''/docs'')]),
                   (''meta'', PDict [])]\<rparr> (Some ''/docs'')
   \<and> resolve_meta_path (posix_host [''/docs/refs.bib''] [''/w'', ''/docs''])
       \<lparr>file_name = Some ''/w/a.md'', sub_settings = Map.empty,
        overrides = [(''builtin'', PDict [(''references'', PList []), (''basepath'', PStr ''/docs'')]),
                     (''meta'', PDict [])]\<rparr> (PStr ''refs.bib'')
     = Inr (Some ''/docs/refs.bib'')"
proof -
  let ?s = "\<lparr>file_name = Some ''/w/a.md'', sub_settings = Map.empty,
      overrides = [(''builtin'', PDict [(''references'', PList []), (''basepath'', PStr ''/docs'')]),
                   (''meta'', PDict [])]\<rparr>"
  have hb: "has_basepath ?s (Some ''/docs'')" by (simp add: has_basepath_def)
  have "resolve_spec (posix_host [''/docs/refs.bib''] [''/w'', ''/docs''])
          (map_option (dirname (posix_host [''/docs/refs.bib''] [''/w'', ''/docs''])) (file_name ?s))
          (Some ''/docs'')
          (expanduser (posix_host [''/docs/refs.bib''] [''/w'', ''/docs'']) ''refs.bib'')
        = Some ''/docs/refs.bib''"
    by (simp add: resolve_spec_def posix_host_def is_abs_def startswith_def posix_dirname_def
        posix_join_def List.map_filter_simps)
  with resolve_meta_path_rule [OF hb, of "posix_host [''/docs/refs.bib''] [''/w'', ''/docs'']" "''refs.bib''"]
    hb show ?thesis by simp
qed

section \<open>One round of the front-matter loop\<close>


lemma set_nested_Inr:
  assumes "set_nested s outer key v = Inr s'"
  shows "\<exists>d. map_of (overrides s) outer = Some (PDict d)
           \<and> s' = s\<lparr>overrides := AList.update outer (PDict (AList.update key v d)) (overrides s)\<rparr>"
  using assms by (auto simp: set_nested_def split: option.splits pyval.splits)

lemma fold_update_other:
  "k \<notin> fst ` set d \<Longrightarrow>
     map_of (fold (\<lambda>(a, b) ov. AList.update a b ov) d ov) k = map_of ov k"
  by (induction d arbitrary: ov) (auto simp: update_conv')

lemma apply_item_settings:
  "apply_item h s (''settings'', PDict d) =
     Inr (s\<lparr>overrides := fold (\<lambda>(subkey, subvalue) ov. AList.update subkey subvalue ov) d (overrides s)\<rparr>)"
  by (simp add: apply_item_def)

lemma apply_item_references:
  "apply_item h s (''references'', v) = apply_references h s v"
  by (simp add: apply_item_def BUILTIN_KEYS_def split: sum.splits)

lemma apply_item_destination:
  "apply_item h s (''destination'', v) = apply_destination h s v"
  by (simp add: apply_item_def BUILTIN_KEYS_def)

lemma apply_item_basepath:
  "apply_item h s (''basepath'', v) = Inr s"
  by (simp add: apply_item_def BUILTIN_KEYS_def)

lemma apply_item_meta:
  assumes "k \<noteq> ''basepath''" "k \<noteq> ''references''" "k \<noteq> ''destination''"
    and "k = ''settings'' \<Longrightarrow> \<forall>d. v \<noteq> PDict d"
  shows "apply_item h s (k, v) = apply_meta h s k v"
proof (cases "k = ''settings''")
  case True
  with assms(4) have "\<forall>d. v \<noteq> PDict d" by simp
  then have "(case v of PDict d \<Rightarrow> Some d | _ \<Rightarrow> None) = None" by (cases v) simp_all
  with True show ?thesis by (simp add: apply_item_def BUILTIN_KEYS_def)
next
  case False
  with assms(1-3) show ?thesis by (simp add: apply_item_def BUILTIN_KEYS_def)
qed


lemma apply_references_Inr:
  assumes "apply_references h s v = Inr s'"
  shows "\<exists>b refs. map_of (overrides s) ''builtin'' = Some (PDict b)
           \<and> collect_refs h s (listify v) = Inr refs
           \<and> s' = s\<lparr>overrides := AList.update ''builtin''
                        (PDict (AList.update ''references'' (PList refs) b)) (overrides s)\<rparr>"
proof (cases "collect_refs h s (listify v)")
  case (Inl e)
  with assms show ?thesis by (simp add: apply_references_def listify_def)
next
  case (Inr refs)
  with assms have "set_nested s ''builtin'' ''references'' (PList refs) = Inr s'"
    by (simp add: apply_references_def listify_def)
  from set_nested_Inr [OF this] Inr show ?thesis by blast
qed

lemma apply_destination_str:
  "apply_destination h s (PStr d) =
     (case resolve_meta_path h s (PStr (dirname h d)) of
        Inl e \<Rightarrow> Inl e
      | Inr r \<Rightarrow>
          if \<not> path_exists h (resolved_destination h s d) \<or> \<not> isdir h (resolved_destination h s d)
          then set_nested s ''builtin'' ''destination'' (PStr (resolved_destination h s d))
          else Inr s)"
  by (simp add: apply_destination_def resolved_destination_def Let_def split: sum.splits option.splits)

lemma apply_destination_Inr:
  assumes "apply_destination h s v = Inr s'"
  shows "(v = PNone \<and> s' = s)
       \<or> (\<exists>d. v = PStr d \<and> path_exists h (resolved_destination h s d)
              \<and> isdir h (resolved_destination h s d) \<and> s' = s)
       \<or> (\<exists>d b. v = PStr d
              \<and> (\<not> path_exists h (resolved_destination h s d) \<or> \<not> isdir h (resolved_destination h s d))
              \<and> map_of (overrides s) ''builtin'' = Some (PDict b)
              \<and> s' = s\<lparr>overrides := AList.update ''builtin''
                    (PDict (AList.update ''destination'' (PStr (resolved_destination h s d)) b))
                    (overrides s)\<rparr>)"
proof (cases v)
  case PNone
  with assms show ?thesis by (simp add: apply_destination_def)
next
  case (PStr d)
  show ?thesis
  proof (cases "resolve_meta_path h s (PStr (dirname h d))")
    case (Inl e)
    with assms PStr show ?thesis by (simp add: apply_destination_str)
  next
    case (Inr r)
    show ?thesis
    proof (cases "\<not> path_exists h (resolved_destination h s d) \<or> \<not> isdir h (resolved_destination h s d)")
      case True
      with assms PStr Inr
      have "set_nested s ''builtin'' ''destination'' (PStr (resolved_destination h s d)) = Inr s'"
        by (simp add: apply_destination_str)
      from set_nested_Inr [OF this] True PStr show ?thesis by blast
    next
      case False
      with assms PStr Inr have "s' = s" by (simp add: apply_destination_str)
      with False PStr show ?thesis by blast
    qed
  qed
qed (use assms in \<open>simp_all add: apply_destination_def\<close>)

lemma apply_meta_Inr:
  assumes "apply_meta h s k v = Inr s'"
  shows "map_of (overrides s') ''builtin'' = map_of (overrides s) ''builtin''
       \<and> file_name s' = file_name s"
proof -
  from assms obtain x where "set_nested s ''meta'' k x = Inr s'"
    by (simp add: apply_meta_def Let_def)
  from set_nested_Inr [OF this] show ?thesis by (auto simp: update_conv')
qed

text \<open>What one round of the loop does to the builtin dictionary, when the round is not a
  \<^verbatim>\<open>settings\<close> dictionary that replaces it.\<close>

lemma apply_item_builtin:
  assumes ok: "apply_item h s (k, v) = Inr s'"
    and safe: "\<And>d. k = ''settings'' \<Longrightarrow> v = PDict d \<Longrightarrow> ''builtin'' \<notin> fst ` set d"
  shows "file_name s' = file_name s
       \<and> (map_of (overrides s') ''builtin'' = map_of (overrides s) ''builtin''
          \<or> (\<exists>b x. (k = ''references'' \<or> k = ''destination'')
                \<and> map_of (overrides s) ''builtin'' = Some (PDict b)
                \<and> map_of (overrides s') ''builtin'' = Some (PDict (AList.update k x b))))"
proof -
  consider (settings) d where "k = ''settings''" "v = PDict d"
    | (refs) "k = ''references''"
    | (dest) "k = ''destination''"
    | (base) "k = ''basepath''"
    | (meta) "k \<noteq> ''basepath''" "k \<noteq> ''references''" "k \<noteq> ''destination''"
        "k = ''settings'' \<Longrightarrow> \<forall>d. v \<noteq> PDict d"
    by blast
  then show ?thesis
  proof cases
    case settings
    with ok have "s' = s\<lparr>overrides := fold (\<lambda>(subkey, subvalue) ov. AList.update subkey subvalue ov) d (overrides s)\<rparr>"
      by (simp add: apply_item_settings)
    with safe [OF settings] show ?thesis by (simp add: fold_update_other)
  next
    case refs
    with ok have "apply_references h s v = Inr s'" by (simp add: apply_item_references)
    from apply_references_Inr [OF this] refs show ?thesis by (auto simp: update_conv')
  next
    case dest
    with ok have "apply_destination h s v = Inr s'" by (simp add: apply_item_destination)
    from apply_destination_Inr [OF this] dest show ?thesis by (auto simp: update_conv')
  next
    case base
    with ok show ?thesis by (simp add: apply_item_basepath)
  next
    case meta
    with ok have "apply_meta h s k v = Inr s'" by (simp add: apply_item_meta)
    from apply_meta_Inr [OF this] show ?thesis by simp
  qed
qed

section \<open>What the loop keeps\<close>


lemma same_base_refl: "same_base s s"
  by (simp add: same_base_def)

lemma same_base_trans:
  assumes "same_base s s1" "same_base s1 s2"
  shows "same_base s s2"
proof -
  from assms have f: "file_name s2 = file_name s" by (simp add: same_base_def)
  from assms(1) consider
      (eq1) "map_of (overrides s1) ''builtin'' = map_of (overrides s) ''builtin''"
    | (d1) b b1 where "map_of (overrides s) ''builtin'' = Some (PDict b)"
        "map_of (overrides s1) ''builtin'' = Some (PDict b1)"
        "map_of b1 ''basepath'' = map_of b ''basepath''"
    unfolding same_base_def by blast
  then show ?thesis
  proof cases
    case eq1
    with assms(2) f show ?thesis unfolding same_base_def by simp
  next
    case d1
    from assms(2) consider
        (eq2) "map_of (overrides s2) ''builtin'' = map_of (overrides s1) ''builtin''"
      | (d2) c c2 where "map_of (overrides s1) ''builtin'' = Some (PDict c)"
          "map_of (overrides s2) ''builtin'' = Some (PDict c2)"
          "map_of c2 ''basepath'' = map_of c ''basepath''"
      unfolding same_base_def by blast
    then show ?thesis
    proof cases
      case eq2
      with d1 f show ?thesis unfolding same_base_def by simp
    next
      case d2
      with d1 have "c = b1" by simp
      with d1 d2 f show ?thesis unfolding same_base_def by simp
    qed
  qed
qed

lemma apply_item_same_base:
  assumes "apply_item h s (k, v) = Inr s'"
    and "\<And>d. k = ''settings'' \<Longrightarrow> v = PDict d \<Longrightarrow> ''builtin'' \<notin> fst ` set d"
  shows "same_base s s'"
proof -
  from apply_item_builtin [OF assms] have f: "file_name s' = file_name s"
    and c: "map_of (overrides s') ''builtin'' = map_of (overrides s) ''builtin''
          \<or> (\<exists>b x. (k = ''references'' \<or> k = ''destination'')
                \<and> map_of (overrides s) ''builtin'' = Some (PDict b)
                \<and> map_of (overrides s') ''builtin'' = Some (PDict (AList.update k x b)))"
    by simp_all
  from c show ?thesis
  proof
    assume "map_of (overrides s') ''builtin'' = map_of (overrides s) ''builtin''"
    with f show ?thesis by (simp add: same_base_def)
  next
    assume "\<exists>b x. (k = ''references'' \<or> k = ''destination'')
                \<and> map_of (overrides s) ''builtin'' = Some (PDict b)
                \<and> map_of (overrides s') ''builtin'' = Some (PDict (AList.update k x b))"
    then obtain b x where k: "k = ''references'' \<or> k = ''destination''"
      and b: "map_of (overrides s) ''builtin'' = Some (PDict b)"
      and b': "map_of (overrides s') ''builtin'' = Some (PDict (AList.update k x b))" by blast
    from k have "map_of (AList.update k x b) ''basepath'' = map_of b ''basepath''"
      by (auto simp: update_conv')
    with f b b' show ?thesis unfolding same_base_def by blast
  qed
qed

lemma apply_item_stored:
  assumes "apply_item h s (k, v) = Inr s'"
    and "\<And>d. k = ''settings'' \<Longrightarrow> v = PDict d \<Longrightarrow> ''builtin'' \<notin> fst ` set d"
    and "x \<noteq> k"
  shows "stored_builtin s' x = stored_builtin s x"
  using apply_item_builtin [OF assms(1,2)] assms(3)
  by (auto simp: stored_builtin_def update_conv')

lemma same_base_resolve:
  assumes "same_base s s'"
  shows "resolve_meta_path h s' t = resolve_meta_path h s t"
proof -
  from assms have f: "file_name s' = file_name s"
    and c: "map_of (overrides s') ''builtin'' = map_of (overrides s) ''builtin''
         \<or> (\<exists>b b'. map_of (overrides s) ''builtin'' = Some (PDict b)
                \<and> map_of (overrides s') ''builtin'' = Some (PDict b')
                \<and> map_of b' ''basepath'' = map_of b ''basepath'')"
    by (simp_all add: same_base_def)
  from c show ?thesis
  proof
    assume e: "map_of (overrides s') ''builtin'' = map_of (overrides s) ''builtin''"
    show ?thesis unfolding resolve_meta_path_def f e by (rule refl)
  next
    assume "\<exists>b b'. map_of (overrides s) ''builtin'' = Some (PDict b)
                \<and> map_of (overrides s') ''builtin'' = Some (PDict b')
                \<and> map_of b' ''basepath'' = map_of b ''basepath''"
    then obtain b b' where b: "map_of (overrides s) ''builtin'' = Some (PDict b)"
      and b': "map_of (overrides s') ''builtin'' = Some (PDict b')"
      and e: "map_of b' ''basepath'' = map_of b ''basepath''" by blast
    show ?thesis unfolding resolve_meta_path_def f b b' by (simp add: e)
  qed
qed

lemma same_base_resolved_refs:
  "same_base s s' \<Longrightarrow> resolved_refs h s' v = resolved_refs h s v"
  by (simp add: resolved_refs_def same_base_resolve)

lemma same_base_resolved_destination:
  "same_base s s' \<Longrightarrow> resolved_destination h s' d = resolved_destination h s d"
  by (simp add: resolved_destination_def same_base_resolve)


lemma apply_items_same_base:
  assumes "apply_items h s items = (s', None)" "safe_items items"
  shows "same_base s s'"
  using assms
proof (induction items arbitrary: s)
  case Nil
  then show ?case by (simp add: same_base_refl)
next
  case (Cons kv items)
  obtain k v where kv: "kv = (k, v)" by (cases kv)
  from Cons.prems(1) obtain s1 where s1: "apply_item h s (k, v) = Inr s1"
    and rest: "apply_items h s1 items = (s', None)"
    by (auto simp: kv split: sum.splits)
  from Cons.prems(2) have safe: "\<And>d. k = ''settings'' \<Longrightarrow> v = PDict d \<Longrightarrow> ''builtin'' \<notin> fst ` set d"
    and safe': "safe_items items"
    by (auto simp: safe_items_def kv)
  from apply_item_same_base [OF s1 safe] Cons.IH [OF rest safe'] show ?case
    by (rule same_base_trans)
qed

lemma apply_items_stored:
  assumes "apply_items h s items = (s', None)" "safe_items items" "x \<notin> fst ` set items"
  shows "stored_builtin s' x = stored_builtin s x"
  using assms
proof (induction items arbitrary: s)
  case Nil
  then show ?case by simp
next
  case (Cons kv items)
  obtain k v where kv: "kv = (k, v)" by (cases kv)
  from Cons.prems(1) obtain s1 where s1: "apply_item h s (k, v) = Inr s1"
    and rest: "apply_items h s1 items = (s', None)"
    by (auto simp: kv split: sum.splits)
  from Cons.prems(2) have safe: "\<And>d. k = ''settings'' \<Longrightarrow> v = PDict d \<Longrightarrow> ''builtin'' \<notin> fst ` set d"
    and safe': "safe_items items"
    by (auto simp: safe_items_def kv)
  from Cons.prems(3) have ne: "x \<noteq> k" and notin: "x \<notin> fst ` set items" by (auto simp: kv)
  from apply_item_stored [OF s1 safe ne] Cons.IH [OF rest safe' notin] show ?case by simp
qed

section \<open>References and destination through the loop\<close>


lemma collect_refs_Inr:
  assumes "collect_refs h s rs = Inr out"
  shows "out = map (\<lambda>f. PStr (normpath h f))
                 (filter (\<lambda>f. \<not> isdir h f)
                    (List.map_filter
                       (\<lambda>r. case resolve_meta_path h s r of Inr (Some f) \<Rightarrow> Some f | _ \<Rightarrow> None) rs))
       \<and> (\<forall>r \<in> set rs. \<exists>p. resolve_meta_path h s r = Inr p)"
  using assms
proof (induction rs arbitrary: out)
  case Nil
  then show ?case by (simp add: List.map_filter_simps)
next
  case (Cons r rs)
  from Cons.prems obtain p out' where p: "resolve_meta_path h s r = Inr p"
    and rest: "collect_refs h s rs = Inr out'"
    and out: "out = (case p of None \<Rightarrow> []
                     | Some f \<Rightarrow> if \<not> isdir h f then [PStr (normpath h f)] else []) @ out'"
    by (auto split: sum.splits)
  from Cons.IH [OF rest] p out show ?case
    by (cases p) (simp_all add: List.map_filter_simps)
qed

lemma apply_items_references:
  assumes "apply_items h s items = (s', None)" "safe_items items"
    "distinct (map fst items)" "map_of items ''references'' = Some v"
  shows "stored_builtin s' ''references'' = Some (PList (resolved_refs h s v))
       \<and> (\<forall>r \<in> set (listify v). \<exists>p. resolve_meta_path h s r = Inr p)"
  using assms
proof (induction items arbitrary: s)
  case Nil
  then show ?case by simp
next
  case (Cons kv items)
  obtain k x where kv: "kv = (k, x)" by (cases kv)
  from Cons.prems(1) obtain s1 where s1: "apply_item h s (k, x) = Inr s1"
    and rest: "apply_items h s1 items = (s', None)"
    by (auto simp: kv split: sum.splits)
  from Cons.prems(2) have safe: "\<And>d. k = ''settings'' \<Longrightarrow> x = PDict d \<Longrightarrow> ''builtin'' \<notin> fst ` set d"
    and safe': "safe_items items"
    by (auto simp: safe_items_def kv)
  from Cons.prems(3) have dist: "distinct (map fst items)" and notin: "k \<notin> fst ` set items"
    by (auto simp: kv)
  show ?case
  proof (cases "k = ''references''")
    case True
    with Cons.prems(4) have xv: "x = v" by (simp add: kv)
    from s1 True xv have "apply_references h s v = Inr s1" by (simp add: apply_item_references)
    from apply_references_Inr [OF this] obtain b refs where
      "map_of (overrides s) ''builtin'' = Some (PDict b)"
      and c: "collect_refs h s (listify v) = Inr refs"
      and "s1 = s\<lparr>overrides := AList.update ''builtin''
                      (PDict (AList.update ''references'' (PList refs) b)) (overrides s)\<rparr>"
      by blast
    then have st: "stored_builtin s1 ''references'' = Some (PList refs)"
      by (simp add: stored_builtin_def update_conv')
    from notin True have "''references'' \<notin> fst ` set items" by simp
    from apply_items_stored [OF rest safe' this] st collect_refs_Inr [OF c]
    show ?thesis by (simp add: resolved_refs_def)
  next
    case False
    with Cons.prems(4) have "map_of items ''references'' = Some v" by (simp add: kv)
    from Cons.IH [OF rest safe' dist this] apply_item_same_base [OF s1 safe]
    show ?thesis by (simp add: same_base_resolved_refs same_base_resolve)
  qed
qed

lemma apply_items_destination:
  assumes "apply_items h s items = (s', None)" "safe_items items"
    "distinct (map fst items)" "map_of items ''destination'' = Some v"
  shows "(v = PNone \<longrightarrow> stored_builtin s' ''destination'' = stored_builtin s ''destination'')
       \<and> (\<forall>d. v = PStr d \<longrightarrow>
            (if \<not> path_exists h (resolved_destination h s d) \<or> \<not> isdir h (resolved_destination h s d)
             then stored_builtin s' ''destination'' = Some (PStr (resolved_destination h s d))
             else stored_builtin s' ''destination'' = stored_builtin s ''destination''))"
  using assms
proof (induction items arbitrary: s)
  case Nil
  then show ?case by simp
next
  case (Cons kv items)
  obtain k x where kv: "kv = (k, x)" by (cases kv)
  from Cons.prems(1) obtain s1 where s1: "apply_item h s (k, x) = Inr s1"
    and rest: "apply_items h s1 items = (s', None)"
    by (auto simp: kv split: sum.splits)
  from Cons.prems(2) have safe: "\<And>d. k = ''settings'' \<Longrightarrow> x = PDict d \<Longrightarrow> ''builtin'' \<notin> fst ` set d"
    and safe': "safe_items items"
    by (auto simp: safe_items_def kv)
  from Cons.prems(3) have dist: "distinct (map fst items)" and notin: "k \<notin> fst ` set items"
    by (auto simp: kv)
  show ?case
  proof (cases "k = ''destination''")
    case True
    with Cons.prems(4) have xv: "x = v" by (simp add: kv)
    from s1 True xv have a: "apply_destination h s v = Inr s1" by (simp add: apply_item_destination)
    from notin True have "''destination'' \<notin> fst ` set items" by simp
    from apply_items_stored [OF rest safe' this]
    have keep: "stored_builtin s' ''destination'' = stored_builtin s1 ''destination''" .
    from apply_destination_Inr [OF a] consider
        (none) "v = PNone" "s1 = s"
      | (there) d where "v = PStr d" "path_exists h (resolved_destination h s d)"
          "isdir h (resolved_destination h s d)" "s1 = s"
      | (stored) d b where "v = PStr d"
          "\<not> path_exists h (resolved_destination h s d) \<or> \<not> isdir h (resolved_destination h s d)"
          "map_of (overrides s) ''builtin'' = Some (PDict b)"
          "s1 = s\<lparr>overrides := AList.update ''builtin''
                    (PDict (AList.update ''destination'' (PStr (resolved_destination h s d)) b))
                    (overrides s)\<rparr>"
      by blast
    then show ?thesis
    proof cases
      case none
      with keep show ?thesis by simp
    next
      case there
      with keep show ?thesis by simp
    next
      case stored
      then have "stored_builtin s1 ''destination'' = Some (PStr (resolved_destination h s d))"
        by (simp add: stored_builtin_def update_conv')
      with keep stored(1,2) show ?thesis by auto
    qed
  next
    case False
    with Cons.prems(4) have "map_of items ''destination'' = Some v" by (simp add: kv)
    from Cons.IH [OF rest safe' dist this] apply_item_same_base [OF s1 safe]
      apply_item_stored [OF s1 safe, of "''destination''"] False
    show ?thesis by (simp add: same_base_resolved_destination)
  qed
qed

section \<open>The whole of \<^verbatim>\<open>apply_frontmatter\<close>\<close>


lemma delete_absent: "map_of fm k = None \<Longrightarrow> AList.delete k fm = fm"
  by (induction fm) (auto split: if_splits)

lemma apply_frontmatter_returns:
  assumes "raised (apply_frontmatter h s fm) = None"
  shows "\<exists>s1. apply_items h s1 (AList.delete ''basepath'' fm)
                = (self_after (apply_frontmatter h s fm), None)
      \<and> ((map_of fm ''basepath'' = None \<and> s1 = s)
         \<or> (\<exists>v bp b. map_of fm ''basepath'' = Some v \<and> get_base_path h s v = Inr bp
               \<and> map_of (overrides s) ''builtin'' = Some (PDict b)
               \<and> s1 = s\<lparr>overrides := AList.update ''builtin''
                          (PDict (AList.update ''basepath'' (py_of_opt bp) b)) (overrides s)\<rparr>))"
proof (cases "map_of fm ''basepath''")
  case None
  with assms have "apply_items h s fm = (self_after (apply_frontmatter h s fm), None)"
    by (simp add: apply_frontmatter_def run_items_def Let_def prod_eq_iff)
  with None show ?thesis by (simp add: delete_absent)
next
  case (Some v)
  show ?thesis
  proof (cases "get_base_path h s v")
    case (Inl e)
    with Some assms show ?thesis by (simp add: apply_frontmatter_def)
  next
    case (Inr bp)
    show ?thesis
    proof (cases "set_nested s ''builtin'' ''basepath'' (py_of_opt bp)")
      case (Inl e)
      with Some Inr assms show ?thesis by (simp add: apply_frontmatter_def)
    next
      case s1: (Inr s1)
      with Some Inr assms
      have "apply_items h s1 (AList.delete ''basepath'' fm)
              = (self_after (apply_frontmatter h s fm), None)"
        by (simp add: apply_frontmatter_def run_items_def Let_def prod_eq_iff)
      with set_nested_Inr [OF s1] Some Inr show ?thesis by blast
    qed
  qed
qed

lemma safe_items_delete:
  assumes "distinct (map fst fm)" "''builtin'' \<notin> set (settings_keys fm)"
  shows "safe_items (AList.delete k fm)"
  unfolding safe_items_def
proof (intro allI impI)
  fix d assume "(''settings'', PDict d) \<in> set (AList.delete k fm)"
  then have "(''settings'', PDict d) \<in> set fm" by (induction fm) (auto split: if_splits)
  with assms(1) have "map_of fm ''settings'' = Some (PDict d)" by simp
  with assms(2) show "''builtin'' \<notin> fst ` set d" by (simp add: settings_keys_def)
qed

text \<open>The state in which the loop starts and the state in which it ends.\<close>

lemma apply_frontmatter_loop:
  assumes "distinct (map fst fm)" "''builtin'' \<notin> set (settings_keys fm)"
    and "raised (apply_frontmatter h s fm) = None"
  obtains s1 where
    "apply_items h s1 (AList.delete ''basepath'' fm) = (self_after (apply_frontmatter h s fm), None)"
    "safe_items (AList.delete ''basepath'' fm)"
    "distinct (map fst (AList.delete ''basepath'' fm))"
    "same_base s1 (self_after (apply_frontmatter h s fm))"
    "\<And>x. x \<noteq> ''basepath'' \<Longrightarrow> stored_builtin s1 x = stored_builtin s x"
    "\<And>v. map_of fm ''basepath'' = Some v \<Longrightarrow>
        \<exists>bp. get_base_path h s v = Inr bp \<and> stored_builtin s1 ''basepath'' = Some (py_of_opt bp)"
proof -
  from apply_frontmatter_returns [OF assms(3)] obtain s1 where
    run: "apply_items h s1 (AList.delete ''basepath'' fm) = (self_after (apply_frontmatter h s fm), None)"
    and c: "(map_of fm ''basepath'' = None \<and> s1 = s)
         \<or> (\<exists>v bp b. map_of fm ''basepath'' = Some v \<and> get_base_path h s v = Inr bp
               \<and> map_of (overrides s) ''builtin'' = Some (PDict b)
               \<and> s1 = s\<lparr>overrides := AList.update ''builtin''
                          (PDict (AList.update ''basepath'' (py_of_opt bp) b)) (overrides s)\<rparr>)"
    by blast
  have safe: "safe_items (AList.delete ''basepath'' fm)" by (rule safe_items_delete [OF assms(1,2)])
  have dist: "distinct (map fst (AList.delete ''basepath'' fm))" by (rule distinct_delete [OF assms(1)])
  have sb: "same_base s1 (self_after (apply_frontmatter h s fm))"
    by (rule apply_items_same_base [OF run safe])
  have keep: "\<And>x. x \<noteq> ''basepath'' \<Longrightarrow> stored_builtin s1 x = stored_builtin s x"
    using c by (auto simp: stored_builtin_def update_conv')
  have base: "\<And>v. map_of fm ''basepath'' = Some v \<Longrightarrow>
        \<exists>bp. get_base_path h s v = Inr bp \<and> stored_builtin s1 ''basepath'' = Some (py_of_opt bp)"
    using c by (auto simp: stored_builtin_def update_conv')
  from run safe dist sb keep base show ?thesis by (rule that)
qed

lemma same_base_stored_basepath:
  assumes "same_base s s'"
  shows "stored_builtin s' ''basepath'' = stored_builtin s ''basepath''"
  using assms unfolding same_base_def stored_builtin_def by auto

lemma stored_builtin_get:
  assumes "stored_builtin s k = Some x"
  shows "\<exists>b. get h s ''builtin'' d = Inr (PDict b) \<and> map_of b k = Some x"
proof (cases "map_of (overrides s) ''builtin''")
  case None
  with assms show ?thesis by (simp add: stored_builtin_def)
next
  case (Some y)
  with assms show ?thesis by (cases y) (simp_all add: stored_builtin_def get_def)
qed

lemma frontmatter_references:
  assumes "distinct (map fst fm)" "''builtin'' \<notin> set (settings_keys fm)"
    and "raised (apply_frontmatter h s fm) = None"
    and "map_of fm ''references'' = Some v"
  shows "stored_builtin (self_after (apply_frontmatter h s fm)) ''references''
           = Some (PList (resolved_refs h (self_after (apply_frontmatter h s fm)) v))
       \<and> (\<forall>r \<in> set (listify v). \<exists>p. resolve_meta_path h (self_after (apply_frontmatter h s fm)) r = Inr p)"
proof -
  from apply_frontmatter_loop [OF assms(1-3)] obtain s1 where
    run: "apply_items h s1 (AList.delete ''basepath'' fm) = (self_after (apply_frontmatter h s fm), None)"
    and safe: "safe_items (AList.delete ''basepath'' fm)"
    and dist: "distinct (map fst (AList.delete ''basepath'' fm))"
    and sb: "same_base s1 (self_after (apply_frontmatter h s fm))"
    by blast
  from assms(4) have "map_of (AList.delete ''basepath'' fm) ''references'' = Some v"
    by (simp add: delete_conv')
  from apply_items_references [OF run safe dist this] sb show ?thesis
    by (simp add: same_base_resolved_refs same_base_resolve)
qed

lemma frontmatter_destination:
  assumes "distinct (map fst fm)" "''builtin'' \<notin> set (settings_keys fm)"
    and "raised (apply_frontmatter h s fm) = None"
    and "map_of fm ''destination'' = Some v"
  shows "(v = PNone \<longrightarrow>
            stored_builtin (self_after (apply_frontmatter h s fm)) ''destination''
              = stored_builtin s ''destination'')
       \<and> (\<forall>d. v = PStr d \<longrightarrow>
            (if \<not> path_exists h (resolved_destination h (self_after (apply_frontmatter h s fm)) d)
                \<or> \<not> isdir h (resolved_destination h (self_after (apply_frontmatter h s fm)) d)
             then stored_builtin (self_after (apply_frontmatter h s fm)) ''destination''
                    = Some (PStr (resolved_destination h (self_after (apply_frontmatter h s fm)) d))
             else stored_builtin (self_after (apply_frontmatter h s fm)) ''destination''
                    = stored_builtin s ''destination''))"
proof -
  from apply_frontmatter_loop [OF assms(1-3)] obtain s1 where
    run: "apply_items h s1 (AList.delete ''basepath'' fm) = (self_after (apply_frontmatter h s fm), None)"
    and safe: "safe_items (AList.delete ''basepath'' fm)"
    and dist: "distinct (map fst (AList.delete ''basepath'' fm))"
    and sb: "same_base s1 (self_after (apply_frontmatter h s fm))"
    and keep: "\<And>x. x \<noteq> ''basepath'' \<Longrightarrow> stored_builtin s1 x = stored_builtin s x"
    by blast
  from assms(4) have "map_of (AList.delete ''basepath'' fm) ''destination'' = Some v"
    by (simp add: delete_conv')
  from apply_items_destination [OF run safe dist this] sb keep [of "''destination''"]
  show ?thesis by (simp add: same_base_resolved_destination)
qed

section \<open>The top level of the overrides\<close>


lemma apply_item_top:
  assumes ok: "apply_item h s (k0, v) = Inr s'"
    and k: "k \<noteq> ''builtin''" "k \<noteq> ''meta''"
    and safe: "\<And>d. k0 = ''settings'' \<Longrightarrow> v = PDict d \<Longrightarrow> k \<notin> fst ` set d"
  shows "map_of (overrides s') k = map_of (overrides s) k"
proof -
  consider (settings) d where "k0 = ''settings''" "v = PDict d"
    | (refs) "k0 = ''references''"
    | (dest) "k0 = ''destination''"
    | (base) "k0 = ''basepath''"
    | (meta) "k0 \<noteq> ''basepath''" "k0 \<noteq> ''references''" "k0 \<noteq> ''destination''"
        "k0 = ''settings'' \<Longrightarrow> \<forall>d. v \<noteq> PDict d"
    by blast
  then show ?thesis
  proof cases
    case settings
    with ok have "s' = s\<lparr>overrides := fold (\<lambda>(subkey, subvalue) ov. AList.update subkey subvalue ov) d (overrides s)\<rparr>"
      by (simp add: apply_item_settings)
    with safe [OF settings] show ?thesis by (simp add: fold_update_other)
  next
    case refs
    with ok have "apply_references h s v = Inr s'" by (simp add: apply_item_references)
    from apply_references_Inr [OF this] k show ?thesis by (auto simp: update_conv')
  next
    case dest
    with ok have "apply_destination h s v = Inr s'" by (simp add: apply_item_destination)
    from apply_destination_Inr [OF this] k show ?thesis by (auto simp: update_conv')
  next
    case base
    with ok show ?thesis by (simp add: apply_item_basepath)
  next
    case meta
    with ok have "apply_meta h s k0 v = Inr s'" by (simp add: apply_item_meta)
    then obtain x where "set_nested s ''meta'' k0 x = Inr s'" by (simp add: apply_meta_def Let_def)
    from set_nested_Inr [OF this] k show ?thesis by (auto simp: update_conv')
  qed
qed

lemma apply_items_top:
  assumes "apply_items h s items = (s', None)" "k \<noteq> ''builtin''" "k \<noteq> ''meta''"
    and "\<forall>d. (''settings'', PDict d) \<in> set items \<longrightarrow> k \<notin> fst ` set d"
  shows "map_of (overrides s') k = map_of (overrides s) k"
  using assms
proof (induction items arbitrary: s)
  case Nil
  then show ?case by simp
next
  case (Cons kv items)
  obtain k0 v where kv: "kv = (k0, v)" by (cases kv)
  from Cons.prems(1) obtain s1 where s1: "apply_item h s (k0, v) = Inr s1"
    and rest: "apply_items h s1 items = (s', None)"
    by (auto simp: kv split: sum.splits)
  from Cons.prems(4) have safe: "\<And>d. k0 = ''settings'' \<Longrightarrow> v = PDict d \<Longrightarrow> k \<notin> fst ` set d"
    and safe': "\<forall>d. (''settings'', PDict d) \<in> set items \<longrightarrow> k \<notin> fst ` set d"
    by (auto simp: kv)
  from apply_item_top [OF s1 Cons.prems(2,3) safe] Cons.IH [OF rest Cons.prems(2,3) safe']
  show ?case by simp
qed

lemma get_cong:
  assumes "map_of (overrides s') k = map_of (overrides s) k" "sub_settings s' = sub_settings s"
  shows "get h s' k d = get h s k d"
  unfolding get_def parse_md_ext_def assms by (rule refl)

lemma frontmatter_get_unchanged:
  assumes "distinct (map fst fm)" "k \<notin> set (settings_keys fm)" "k \<noteq> ''builtin''" "k \<noteq> ''meta''"
    and "raised (apply_frontmatter h s fm) = None"
  shows "get h (self_after (apply_frontmatter h s fm)) k d = get h s k d"
proof -
  from apply_frontmatter_returns [OF assms(5)] obtain s1 where
    run: "apply_items h s1 (AList.delete ''basepath'' fm) = (self_after (apply_frontmatter h s fm), None)"
    and c: "(map_of fm ''basepath'' = None \<and> s1 = s)
         \<or> (\<exists>v bp b. map_of fm ''basepath'' = Some v \<and> get_base_path h s v = Inr bp
               \<and> map_of (overrides s) ''builtin'' = Some (PDict b)
               \<and> s1 = s\<lparr>overrides := AList.update ''builtin''
                          (PDict (AList.update ''basepath'' (py_of_opt bp) b)) (overrides s)\<rparr>)"
    by blast
  have safe: "\<forall>d. (''settings'', PDict d) \<in> set (AList.delete ''basepath'' fm) \<longrightarrow> k \<notin> fst ` set d"
  proof (intro allI impI)
    fix d assume "(''settings'', PDict d) \<in> set (AList.delete ''basepath'' fm)"
    then have "(''settings'', PDict d) \<in> set fm" by (induction fm) (auto split: if_splits)
    with assms(1) have "map_of fm ''settings'' = Some (PDict d)" by simp
    with assms(2) show "k \<notin> fst ` set d" by (simp add: settings_keys_def)
  qed
  from c assms(3) have "map_of (overrides s1) k = map_of (overrides s) k"
    by (auto simp: update_conv')
  with apply_items_top [OF run assms(3,4) safe]
  have m: "map_of (overrides (self_after (apply_frontmatter h s fm))) k = map_of (overrides s) k"
    by simp
  have f: "sub_settings (self_after (apply_frontmatter h s fm)) = sub_settings s"
    using apply_frontmatter_frame [of h s fm] by simp
  from m f show ?thesis by (rule get_cong)
qed

section \<open>What the front matter leaves in the object\<close>

text \<open>
  C6. Let \<^verbatim>\<open>apply_frontmatter\<close> return on a front matter (a dictionary) with a
  \<^verbatim>\<open>references\<close> field, whose \<^verbatim>\<open>settings\<close> dictionary, if it has one, does not replace the
  builtin dictionary. Then every reference of the field (the value itself when it is not a
  list) resolves with \<^verbatim>\<open>resolve_meta_path\<close>, and the builtin references are exactly the
  normalised resolved paths of the references that resolve to a path that is not a
  directory, in the order of the field.
\<close>

theorem references_stored:
  assumes "distinct (map fst fm)" "''builtin'' \<notin> set (settings_keys fm)"
    and "raised (apply_frontmatter h s fm) = None"
    and "map_of fm ''references'' = Some v"
  shows "stored_builtin (self_after (apply_frontmatter h s fm)) ''references''
           = Some (PList (resolved_refs h (self_after (apply_frontmatter h s fm)) v))
       \<and> (\<forall>r \<in> set (listify v).
            \<exists>p. resolve_meta_path h (self_after (apply_frontmatter h s fm)) r = Inr p)"
  using assms by (rule frontmatter_references)

lemma sample_references:
  "apply_frontmatter sample_host sample_settings
     [(''title'', PStr ''T''),
      (''references'', PList [PStr ''refs.bib'', PStr ''img'', PStr ''/nope.bib''])]
   = \<lparr>self_after = sample_settings\<lparr>overrides :=
         [(''builtin'', PDict [(''references'', PList [PStr ''/w/refs.bib'']),
                               (''basepath'', PStr ''/w'')]),
          (''meta'', PDict [(''title'', PStr ''T'')])]\<rparr>,
      frontmatter_after =
        [(''title'', PStr ''T''),
         (''references'', PList [PStr ''refs.bib'', PStr ''img'', PStr ''/nope.bib''])],
      raised = None\<rparr>"
  by (simp add: sample_host_def sample_settings_def apply_frontmatter_def run_items_def
      apply_item_def apply_meta_def apply_references_def set_nested_def resolve_meta_path_def
      BUILTIN_KEYS_def py_str_def posix_host_def is_abs_def startswith_def posix_dirname_def
      posix_join_def Let_def)

theorem references_stored_witness:
  "distinct (map fst [(''title'', PStr ''T''),
      (''references'', PList [PStr ''refs.bib'', PStr ''img'', PStr ''/nope.bib''])])
   \<and> ''builtin'' \<notin> set (settings_keys [(''title'', PStr ''T''),
      (''references'', PList [PStr ''refs.bib'', PStr ''img'', PStr ''/nope.bib''])])
   \<and> raised (apply_frontmatter sample_host sample_settings [(''title'', PStr ''T''),
      (''references'', PList [PStr ''refs.bib'', PStr ''img'', PStr ''/nope.bib''])]) = None
   \<and> stored_builtin (self_after (apply_frontmatter sample_host sample_settings
        [(''title'', PStr ''T''),
         (''references'', PList [PStr ''refs.bib'', PStr ''img'', PStr ''/nope.bib''])]))
        ''references''
      = Some (PList [PStr ''/w/refs.bib''])"
proof -
  let ?v = "PList [PStr ''refs.bib'', PStr ''img'', PStr ''/nope.bib'']"
  let ?fm = "[(''title'', PStr ''T''), (''references'', ?v)]"
  let ?s' = "self_after (apply_frontmatter sample_host sample_settings ?fm)"
  have 1: "distinct (map fst ?fm)" by simp
  have 2: "''builtin'' \<notin> set (settings_keys ?fm)" by (simp add: settings_keys_def)
  have 3: "raised (apply_frontmatter sample_host sample_settings ?fm) = None"
    by (simp add: sample_references)
  have 4: "map_of ?fm ''references'' = Some ?v" by simp
  from references_stored [OF 1 2 3 4]
  have "stored_builtin ?s' ''references'' = Some (PList (resolved_refs sample_host ?s' ?v))"
    by simp
  moreover have "resolved_refs sample_host ?s' ?v = [PStr ''/w/refs.bib'']"
    unfolding sample_references
    by (simp add: resolved_refs_def listify_def resolve_meta_path_def List.map_filter_simps
        sample_host_def sample_settings_def posix_host_def is_abs_def startswith_def
        posix_dirname_def posix_join_def Let_def)
  ultimately show ?thesis using 1 2 3 by simp
qed

text \<open>
  C7. Let \<^verbatim>\<open>apply_frontmatter\<close> return on a front matter (a dictionary) with a
  \<^verbatim>\<open>destination\<close> field, whose \<^verbatim>\<open>settings\<close> dictionary, if it has one, does not replace the
  builtin dictionary. For a value that is a path, the directory part is resolved with
  \<^verbatim>\<open>resolve_meta_path\<close> and, where that gives a directory, joined with the base name of the
  value (the value itself stands where it gives none); the builtin destination is that
  path exactly when the path does not exist or is not a directory, and is left as it was
  otherwise. For the value \<^verbatim>\<open>None\<close> it is left as it was.
\<close>

theorem destination_stored:
  assumes "distinct (map fst fm)" "''builtin'' \<notin> set (settings_keys fm)"
    and "raised (apply_frontmatter h s fm) = None"
    and "map_of fm ''destination'' = Some v"
  shows "(v = PNone \<longrightarrow>
            stored_builtin (self_after (apply_frontmatter h s fm)) ''destination''
              = stored_builtin s ''destination'')
       \<and> (\<forall>d. v = PStr d \<longrightarrow>
            (if \<not> path_exists h (resolved_destination h (self_after (apply_frontmatter h s fm)) d)
                \<or> \<not> isdir h (resolved_destination h (self_after (apply_frontmatter h s fm)) d)
             then stored_builtin (self_after (apply_frontmatter h s fm)) ''destination''
                    = Some (PStr (resolved_destination h (self_after (apply_frontmatter h s fm)) d))
             else stored_builtin (self_after (apply_frontmatter h s fm)) ''destination''
                    = stored_builtin s ''destination''))"
  using assms by (rule frontmatter_destination)

lemma sample_destination:
  "apply_frontmatter sample_host sample_settings [(''destination'', PStr ''out/a.html'')]
   = \<lparr>self_after = sample_settings\<lparr>overrides :=
         [(''builtin'', PDict [(''references'', PList []), (''basepath'', PStr ''/w''),
                               (''destination'', PStr ''/w/out/a.html'')]),
          (''meta'', PDict [])]\<rparr>,
      frontmatter_after = [(''destination'', PStr ''out/a.html'')],
      raised = None\<rparr>"
  by (simp add: sample_host_def sample_settings_def apply_frontmatter_def run_items_def
      apply_item_def apply_destination_def set_nested_def resolve_meta_path_def
      BUILTIN_KEYS_def posix_host_def is_abs_def startswith_def posix_dirname_def
      posix_basename_def posix_join_def Let_def)

theorem destination_stored_witness:
  "distinct (map fst [(''destination'', PStr ''out/a.html'')])
   \<and> ''builtin'' \<notin> set (settings_keys [(''destination'', PStr ''out/a.html'')])
   \<and> raised (apply_frontmatter sample_host sample_settings
               [(''destination'', PStr ''out/a.html'')]) = None
   \<and> \<not> path_exists sample_host ''/w/out/a.html''
   \<and> stored_builtin (self_after (apply_frontmatter sample_host sample_settings
        [(''destination'', PStr ''out/a.html'')])) ''destination''
      = Some (PStr ''/w/out/a.html'')"
proof -
  let ?fm = "[(''destination'', PStr ''out/a.html'')]"
  let ?s' = "self_after (apply_frontmatter sample_host sample_settings ?fm)"
  have 1: "distinct (map fst ?fm)" by simp
  have 2: "''builtin'' \<notin> set (settings_keys ?fm)" by (simp add: settings_keys_def)
  have 3: "raised (apply_frontmatter sample_host sample_settings ?fm) = None"
    by (simp add: sample_destination)
  have 4: "map_of ?fm ''destination'' = Some (PStr ''out/a.html'')" by simp
  have r: "resolved_destination sample_host ?s' ''out/a.html'' = ''/w/out/a.html''"
    unfolding sample_destination
    by (simp add: resolved_destination_def resolve_meta_path_def
        sample_host_def sample_settings_def posix_host_def is_abs_def startswith_def
        posix_dirname_def posix_basename_def posix_join_def Let_def)
  have e: "\<not> path_exists sample_host ''/w/out/a.html''"
    by (simp add: sample_host_def posix_host_def)
  from destination_stored [OF 1 2 3 4] r e
  have "stored_builtin ?s' ''destination'' = Some (PStr ''/w/out/a.html'')" by simp
  with 1 2 3 e show ?thesis by simp
qed

text \<open>
  C2, as the specification states it, fails: after a front matter with a \<^verbatim>\<open>basepath\<close>
  that resolves to \<^verbatim>\<open>/docs\<close>, \<^verbatim>\<open>get("basepath")\<close> still returns the application default of
  the host store.
\<close>

theorem get_basepath_ignores_frontmatter:
  "raised (apply_frontmatter sample_host sample_settings [(''basepath'', PStr ''/docs'')]) = None
   \<and> get_base_path sample_host sample_settings (PStr ''/docs'') = Inr (Some ''/docs'')
   \<and> sub_settings sample_settings ''basepath'' = Some (PStr ''/app'')
   \<and> get sample_host
        (self_after (apply_frontmatter sample_host sample_settings [(''basepath'', PStr ''/docs'')]))
        ''basepath'' PNone = Inr (PStr ''/app'')"
  by (simp add: sample_host_def sample_settings_def apply_frontmatter_def run_items_def
      get_base_path_def set_nested_def get_def py_of_opt_def
      posix_host_def is_abs_def startswith_def Let_def)

text \<open>
  C2, amended. Let \<^verbatim>\<open>apply_frontmatter\<close> return on a front matter (a dictionary) whose
  \<^verbatim>\<open>settings\<close> dictionary, if it has one, does not replace the builtin dictionary. Then
  \<^verbatim>\<open>get("builtin")\<close> returns a dictionary that holds, under the key of each builtin field of
  the front matter, the value derived from it: the base path that \<^verbatim>\<open>get_base_path\<close> gives,
  the resolved references, and the resolved destination when that is not an existing
  directory. \<^verbatim>\<open>get\<close> of a field's own key returns what it returned before the call, unless
  the \<^verbatim>\<open>settings\<close> dictionary sets that key.
\<close>

theorem frontmatter_fields_under_builtin:
  assumes "distinct (map fst fm)" "''builtin'' \<notin> set (settings_keys fm)"
    and "raised (apply_frontmatter h s fm) = None"
  shows "(\<forall>v. map_of fm ''basepath'' = Some v \<longrightarrow>
            (\<exists>b bp. get h (self_after (apply_frontmatter h s fm)) ''builtin'' d = Inr (PDict b)
               \<and> get_base_path h s v = Inr bp \<and> map_of b ''basepath'' = Some (py_of_opt bp)))
       \<and> (\<forall>v. map_of fm ''references'' = Some v \<longrightarrow>
            (\<exists>b. get h (self_after (apply_frontmatter h s fm)) ''builtin'' d = Inr (PDict b)
               \<and> map_of b ''references''
                   = Some (PList (resolved_refs h (self_after (apply_frontmatter h s fm)) v))))
       \<and> (\<forall>p. map_of fm ''destination'' = Some (PStr p)
              \<and> (\<not> path_exists h (resolved_destination h (self_after (apply_frontmatter h s fm)) p)
                 \<or> \<not> isdir h (resolved_destination h (self_after (apply_frontmatter h s fm)) p)) \<longrightarrow>
            (\<exists>b. get h (self_after (apply_frontmatter h s fm)) ''builtin'' d = Inr (PDict b)
               \<and> map_of b ''destination''
                   = Some (PStr (resolved_destination h (self_after (apply_frontmatter h s fm)) p))))
       \<and> (\<forall>k \<in> set BUILTIN_KEYS. k \<notin> set (settings_keys fm) \<longrightarrow>
            get h (self_after (apply_frontmatter h s fm)) k d = get h s k d)"
proof (intro conjI allI impI ballI)
  fix v assume v: "map_of fm ''basepath'' = Some v"
  from apply_frontmatter_loop [OF assms] obtain s1 where
    sb: "same_base s1 (self_after (apply_frontmatter h s fm))"
    and base: "\<And>v. map_of fm ''basepath'' = Some v \<Longrightarrow>
        \<exists>bp. get_base_path h s v = Inr bp \<and> stored_builtin s1 ''basepath'' = Some (py_of_opt bp)"
    by blast
  from base [OF v] obtain bp where bp: "get_base_path h s v = Inr bp"
    and st: "stored_builtin s1 ''basepath'' = Some (py_of_opt bp)" by blast
  from same_base_stored_basepath [OF sb] st
  have "stored_builtin (self_after (apply_frontmatter h s fm)) ''basepath'' = Some (py_of_opt bp)"
    by simp
  from stored_builtin_get [OF this] bp
  show "\<exists>b bp. get h (self_after (apply_frontmatter h s fm)) ''builtin'' d = Inr (PDict b)
               \<and> get_base_path h s v = Inr bp \<and> map_of b ''basepath'' = Some (py_of_opt bp)"
    by blast
next
  fix v assume "map_of fm ''references'' = Some v"
  from frontmatter_references [OF assms this]
  have "stored_builtin (self_after (apply_frontmatter h s fm)) ''references''
           = Some (PList (resolved_refs h (self_after (apply_frontmatter h s fm)) v))" by simp
  from stored_builtin_get [OF this]
  show "\<exists>b. get h (self_after (apply_frontmatter h s fm)) ''builtin'' d = Inr (PDict b)
               \<and> map_of b ''references''
                   = Some (PList (resolved_refs h (self_after (apply_frontmatter h s fm)) v))" .
next
  fix p assume a: "map_of fm ''destination'' = Some (PStr p)
              \<and> (\<not> path_exists h (resolved_destination h (self_after (apply_frontmatter h s fm)) p)
                 \<or> \<not> isdir h (resolved_destination h (self_after (apply_frontmatter h s fm)) p))"
  then have m: "map_of fm ''destination'' = Some (PStr p)" by simp
  from frontmatter_destination [OF assms m] a
  have "stored_builtin (self_after (apply_frontmatter h s fm)) ''destination''
          = Some (PStr (resolved_destination h (self_after (apply_frontmatter h s fm)) p))"
    by auto
  from stored_builtin_get [OF this]
  show "\<exists>b. get h (self_after (apply_frontmatter h s fm)) ''builtin'' d = Inr (PDict b)
               \<and> map_of b ''destination''
                   = Some (PStr (resolved_destination h (self_after (apply_frontmatter h s fm)) p))" .
next
  fix k assume "k \<in> set BUILTIN_KEYS" "k \<notin> set (settings_keys fm)"
  then show "get h (self_after (apply_frontmatter h s fm)) k d = get h s k d"
    using frontmatter_get_unchanged [OF assms(1) _ _ _ assms(3), of k d]
    by (auto simp: BUILTIN_KEYS_def)
qed

theorem frontmatter_fields_under_builtin_witness:
  "distinct (map fst [(''basepath'', PStr ''/docs'')])
   \<and> ''builtin'' \<notin> set (settings_keys [(''basepath'', PStr ''/docs'')])
   \<and> raised (apply_frontmatter sample_host sample_settings [(''basepath'', PStr ''/docs'')]) = None
   \<and> (\<exists>b. get sample_host
              (self_after (apply_frontmatter sample_host sample_settings [(''basepath'', PStr ''/docs'')]))
              ''builtin'' PNone = Inr (PDict b)
          \<and> map_of b ''basepath'' = Some (PStr ''/docs''))"
proof -
  let ?fm = "[(''basepath'', PStr ''/docs'')]"
  have 1: "distinct (map fst ?fm)" by simp
  have 2: "''builtin'' \<notin> set (settings_keys ?fm)" by (simp add: settings_keys_def)
  have 3: "raised (apply_frontmatter sample_host sample_settings ?fm) = None"
    by (simp add: sample_host_def sample_settings_def apply_frontmatter_def run_items_def
        get_base_path_def set_nested_def py_of_opt_def
        posix_host_def is_abs_def startswith_def Let_def)
  have 4: "map_of ?fm ''basepath'' = Some (PStr ''/docs'')" by simp
  have g: "get_base_path sample_host sample_settings (PStr ''/docs'') = Inr (Some ''/docs'')"
    by (simp add: sample_host_def sample_settings_def get_base_path_def
        posix_host_def is_abs_def startswith_def Let_def)
  from frontmatter_fields_under_builtin [OF 1 2 3, of PNone] 4
  obtain b bp where
    "get sample_host (self_after (apply_frontmatter sample_host sample_settings ?fm))
       ''builtin'' PNone = Inr (PDict b)"
    "get_base_path sample_host sample_settings (PStr ''/docs'') = Inr bp"
    "map_of b ''basepath'' = Some (py_of_opt bp)"
    by blast
  with g have "\<exists>b. get sample_host
              (self_after (apply_frontmatter sample_host sample_settings ?fm))
              ''builtin'' PNone = Inr (PDict b)
          \<and> map_of b ''basepath'' = Some (PStr ''/docs'')"
    by (auto simp: py_of_opt_def)
  with 1 2 3 show ?thesis by simp
qed

end
